theory Spec2Isabelle
  imports Main "HOL-Library.Word"
begin

unbundle bit_operations_syntax

section \<open>Bytes, errors and Python's integer conversions\<close>

text \<open>
  A Python \<open>bytes\<close> or \<open>bytearray\<close> value is a list of 8-bit words. Python integers are
  unbounded: values that can be negative are \<open>int\<close>, lengths, offsets and indices that
  start at 0 and only grow are \<open>nat\<close>. Every exception the code can raise is a
  constructor of \<open>error\<close>; the notes that \<open>with_note\<close> attaches to an exception are
  not modelled, so \<open>with_note f\<close> is \<open>f\<close> itself.
\<close>

type_synonym byte = "8 word"
type_synonym bytes = "byte list"

datatype error =
    ValueError
  | IndexError
  | AssertionError
  | OverflowError
  | UnicodeDecodeError
  | UnicodeEncodeError
  | TypeError
  | FileNotFoundError

text \<open>\<open>xs[j]\<close> for a Python integer \<open>j\<close>: a negative index counts from the end, and an
  index outside the list raises IndexError (here \<open>None\<close>).\<close>

definition py_index :: "'a list \<Rightarrow> int \<Rightarrow> 'a option" where
  "py_index xs j =
     (let n = int (length xs); j' = (if j < 0 then j + n else j)
      in if 0 \<le> j' \<and> j' < n then Some (xs ! nat j') else None)"

text \<open>\<open>int.from_bytes(bs, 'little', signed=...)\<close>.\<close>

fun from_bytes_le :: "bytes \<Rightarrow> nat" where
  "from_bytes_le [] = 0"
| "from_bytes_le (b # bs) = unat b + 256 * from_bytes_le bs"

definition int_from_bytes :: "bytes \<Rightarrow> bool \<Rightarrow> int" where
  "int_from_bytes bs sg =
     (let u = int (from_bytes_le bs)
      in if sg \<and> bs \<noteq> [] \<and> 2 ^ (8 * length bs - 1) \<le> u then u - 2 ^ (8 * length bs) else u)"

text \<open>\<open>int.to_bytes(x, n, 'little', signed=...)\<close>: OverflowError when \<open>x\<close> is not
  representable in \<open>n\<close> bytes.\<close>

fun le_bytes :: "nat \<Rightarrow> nat \<Rightarrow> bytes" where
  "le_bytes 0 x = []"
| "le_bytes (Suc n) x = word_of_nat x # le_bytes n (x div 256)"

definition representable :: "int \<Rightarrow> nat \<Rightarrow> bool \<Rightarrow> bool" where
  "representable x n sg =
     (if n = 0 then x = 0
      else if sg then - (2 ^ (8 * n - 1)) \<le> x \<and> x < 2 ^ (8 * n - 1)
      else 0 \<le> x \<and> x < 2 ^ (8 * n))"

definition int_to_bytes :: "int \<Rightarrow> nat \<Rightarrow> bool \<Rightarrow> error + bytes" where
  "int_to_bytes x n sg =
     (if representable x n sg then Inr (le_bytes n (nat (x mod 2 ^ (8 * n))))
      else Inl OverflowError)"

section \<open>Varints\<close>

text \<open>
  \<open>read_varint\<close> of tc_fix_rams.py: every byte contributes its low 7 bits at shift
  position \<open>j\<close>, which grows by 7; the loop ends after the first byte whose high bit is
  clear. \<open>data[i]\<close> past the end raises IndexError.
\<close>

function read_varint_fix_loop :: "bytes \<Rightarrow> nat \<Rightarrow> nat \<Rightarrow> nat \<Rightarrow> nat \<Rightarrow> error + (nat \<times> nat)" where
  "read_varint_fix_loop data i out j lastb =
     (if lastb AND 0x80 \<noteq> 0 then
        (if i < length data then
           read_varint_fix_loop data (i + 1)
             (out OR push_bit j (unat (data ! i) AND 0x7f)) (j + 7) (unat (data ! i))
         else Inl IndexError)
      else Inr (out, i))"
  by pat_completeness auto
termination
  by (relation "measure (\<lambda>(data, i, out, j, lastb). Suc (length data) - i)") auto

definition read_varint_fix :: "bytes \<Rightarrow> nat \<Rightarrow> error + (nat \<times> nat)" where
  "read_varint_fix data start = read_varint_fix_loop data start 0 0 0x80"

text \<open>
  \<open>read_varint\<close> of tc_extract_arch.py: the running total is shifted left by 7 and the
  new group is put at the low end.
\<close>

function read_varint_arch_loop :: "bytes \<Rightarrow> nat \<Rightarrow> nat \<Rightarrow> nat \<Rightarrow> error + (nat \<times> nat)" where
  "read_varint_arch_loop data i out lastb =
     (if lastb AND 0x80 \<noteq> 0 then
        (if i < length data then
           read_varint_arch_loop data (i + 1)
             (push_bit 7 out OR (unat (data ! i) AND 0x7f)) (unat (data ! i))
         else Inl IndexError)
      else Inr (out, i))"
  by pat_completeness auto
termination
  by (relation "measure (\<lambda>(data, i, out, lastb). Suc (length data) - i)") auto

definition read_varint_arch :: "bytes \<Rightarrow> nat \<Rightarrow> error + (nat \<times> nat)" where
  "read_varint_arch data start = read_varint_arch_loop data start 0 0x80"

text \<open>
  \<open>make_varint\<close> is only called with \<open>len(data)\<close>, a natural number. \<open>out\<close> is the
  bytearray being filled.
\<close>

function make_varint_loop :: "nat \<Rightarrow> bytes \<Rightarrow> bytes" where
  "make_varint_loop n out =
     (if n > 0x7f then make_varint_loop (drop_bit 7 n) (out @ [word_of_nat (n AND 0x7f OR 0x80)])
      else out @ [word_of_nat n])"
  by pat_completeness auto
termination
  by (relation "measure (\<lambda>(n, out). n)") (auto simp: drop_bit_eq_div)

definition make_varint :: "nat \<Rightarrow> bytes" where
  "make_varint n = make_varint_loop n []"

text \<open>The 7-bit groups of a byte string, and the two ways of reading them as a number.\<close>

definition groups :: "bytes \<Rightarrow> nat list" where
  "groups bs = map (\<lambda>b. unat b AND 0x7f) bs"

fun le_value :: "nat list \<Rightarrow> nat" where
  "le_value [] = 0"
| "le_value (g # gs) = g + 128 * le_value gs"

section \<open>The literal-only encoder\<close>

definition snappy_encode :: "bytes \<Rightarrow> error + bytes" where
  "snappy_encode data =
     (if data = [] then Inr []
      else case int_to_bytes (int (length data) - 1) 4 False of
             Inl e \<Rightarrow> Inl e
           | Inr lb \<Rightarrow> Inr (make_varint (length data) @ [word_of_nat (push_bit 2 63)] @ lb @ data))"

declare read_varint_fix_loop.simps [simp del]
declare read_varint_arch_loop.simps [simp del]
declare make_varint_loop.simps [simp del]

section \<open>The lazy decompressor\<close>

text \<open>
  The class \<open>SnappyDecompress\<close> is the same in both tools but for the varint reader
  its constructor calls. Its methods mutate the object; here each takes the object's
  state and returns the new one. A method that raises returns the exception together
  with the state the object is left in.
\<close>

record SnappyDecompress =
  compressed_data :: bytes
  uncompressed_data :: bytes
  uncompressed_length :: nat
  index :: nat

definition SnappyDecompress_init :: "bytes \<Rightarrow> nat \<Rightarrow> error + SnappyDecompress" where
  "SnappyDecompress_init compressed base =
     (case read_varint_fix compressed base of
        Inl e \<Rightarrow> Inl e
      | Inr (n, i) \<Rightarrow>
          Inr \<lparr>compressed_data = compressed, uncompressed_data = [],
               uncompressed_length = n, index = i\<rparr>)"

definition SnappyDecompress_init_arch :: "bytes \<Rightarrow> nat \<Rightarrow> error + SnappyDecompress" where
  "SnappyDecompress_init_arch compressed base =
     (case read_varint_arch compressed base of
        Inl e \<Rightarrow> Inl e
      | Inr (n, i) \<Rightarrow>
          Inr \<lparr>compressed_data = compressed, uncompressed_data = [],
               uncompressed_length = n, index = i\<rparr>)"

text \<open>\<open>_uncompress_literal\<close>. Slices never raise: a truncated stream gives fewer bytes.\<close>

definition uncompress_literal :: "SnappyDecompress \<Rightarrow> error option \<times> SnappyDecompress" where
  "uncompress_literal s =
     (let cd = compressed_data s in
      if index s < length cd then
        let len0 = drop_bit 2 (unat (cd ! index s));
            i1 = index s + 1;
            (len1, i2) =
              (if 60 \<le> len0 then
                 let bc = len0 - 59 in (from_bytes_le (take bc (drop i1 cd)), i1 + bc)
               else (len0, i1));
            len2 = len1 + 1
        in (None, s\<lparr>uncompressed_data := uncompressed_data s @ take len2 (drop i2 cd),
                    index := i2 + len2\<rparr>)
      else (Some IndexError, s))"

text \<open>
  \<open>_uncompress_copy\<close>, in its two parts. \<open>copy_command\<close> is the decoding of the tag and
  of the offset bytes (the \<open>if\<close> chain), which advances \<open>index\<close> and gives the length
  and the offset. \<open>copy_loop k i n out\<close> is the \<open>for\<close> loop from iteration \<open>i\<close> with
  \<open>n\<close> iterations to go: each appends \<open>out[k + i]\<close>, a Python index that may be
  negative.
\<close>

definition copy_command :: "SnappyDecompress \<Rightarrow> (error + nat \<times> nat) \<times> SnappyDecompress" where
  "copy_command s =
     (let cd = compressed_data s in
      if index s < length cd then
        let tag = unat (cd ! index s); s1 = s\<lparr>index := index s + 1\<rparr> in
        if tag AND 0x3 = 1 then
          (if index s1 < length cd then
             (Inr (drop_bit 2 (tag AND 0x1c) + 4,
                   push_bit 3 (tag AND 0xe0) OR unat (cd ! index s1)),
              s1\<lparr>index := index s1 + 1\<rparr>)
           else (Inl IndexError, s1))
        else if tag AND 0x3 = 2 then
          (Inr (drop_bit 2 tag + 1, from_bytes_le (take 2 (drop (index s1) cd))),
           s1\<lparr>index := index s1 + 2\<rparr>)
        else if tag AND 0x3 = 3 then
          (Inr (drop_bit 2 tag + 1, from_bytes_le (take 4 (drop (index s1) cd))),
           s1\<lparr>index := index s1 + 4\<rparr>)
        else (Inl ValueError, s1)
      else (Inl IndexError, s))"

fun copy_loop :: "int \<Rightarrow> nat \<Rightarrow> nat \<Rightarrow> bytes \<Rightarrow> error option \<times> bytes" where
  "copy_loop k i 0 out = (None, out)"
| "copy_loop k i (Suc n) out =
     (case py_index out (k + int i) of
        None \<Rightarrow> (Some IndexError, out)
      | Some b \<Rightarrow> copy_loop k (i + 1) n (out @ [b]))"

definition uncompress_copy :: "SnappyDecompress \<Rightarrow> error option \<times> SnappyDecompress" where
  "uncompress_copy s =
     (case copy_command s of
        (Inl e, s1) \<Rightarrow> (Some e, s1)
      | (Inr (len, offset), s1) \<Rightarrow>
          (let k = int (length (uncompressed_data s1)) - int offset;
               (e, out) = copy_loop k 0 len (uncompressed_data s1)
           in (e, s1\<lparr>uncompressed_data := out\<rparr>)))"

text \<open>\<open>_uncompress_till\<close>: the body of the loop, then the loop.\<close>

definition uncompress_step :: "SnappyDecompress \<Rightarrow> error option \<times> SnappyDecompress" where
  "uncompress_step s =
     (let command = unat (compressed_data s ! index s) in
      if command AND 0x3 = 0 then uncompress_literal s else uncompress_copy s)"

lemma uncompress_literal_index:
  "index s < length (compressed_data s) \<Longrightarrow> uncompress_literal s = (e, s') \<Longrightarrow>
   index s < index s' \<and> compressed_data s' = compressed_data s"
  by (auto simp: uncompress_literal_def Let_def split: if_splits prod.splits)

lemma copy_command_index:
  "index s < length (compressed_data s) \<Longrightarrow> copy_command s = (r, s') \<Longrightarrow>
   index s < index s' \<and> compressed_data s' = compressed_data s"
  by (auto simp: copy_command_def Let_def split: if_splits)

lemma uncompress_copy_index:
  "index s < length (compressed_data s) \<Longrightarrow> uncompress_copy s = (e, s') \<Longrightarrow>
   index s < index s' \<and> compressed_data s' = compressed_data s"
  by (auto simp: uncompress_copy_def Let_def split: prod.splits sum.splits
        dest: copy_command_index)

lemma uncompress_step_index:
  "index s < length (compressed_data s) \<Longrightarrow> uncompress_step s = (e, s') \<Longrightarrow>
   index s < index s' \<and> compressed_data s' = compressed_data s"
  using uncompress_literal_index [of s e s'] uncompress_copy_index [of s e s']
  by (simp add: uncompress_step_def Let_def split: if_splits)

function uncompress_till :: "SnappyDecompress \<Rightarrow> int \<Rightarrow> error option \<times> SnappyDecompress" where
  "uncompress_till s target =
     (if index s < length (compressed_data s) \<and> int (length (uncompressed_data s)) < target then
        (case uncompress_step s of
           (Some e, s') \<Rightarrow> (Some e, s')
         | (None, s') \<Rightarrow> uncompress_till s' target)
      else (None, s))"
  by pat_completeness auto
termination
proof (relation "measure (\<lambda>(s, target). length (compressed_data s) - index s)")
  show "wf (measure (\<lambda>(s, target). length (compressed_data s) - index s))" by simp
next
  fix s :: SnappyDecompress and target :: int and e and s'
  assume "index s < length (compressed_data s) \<and> int (length (uncompressed_data s)) < target"
    and "(e, s') = uncompress_step s" and "e = None"
  then have "index s < index s' \<and> compressed_data s' = compressed_data s"
    using uncompress_step_index [of s e s'] by simp
  with \<open>index s < length (compressed_data s) \<and> _\<close>
  show "((s', target), (s, target)) \<in> measure (\<lambda>(s, target). length (compressed_data s) - index s)"
    by auto
qed

declare uncompress_till.simps [simp del]

text \<open>
  \<open>__getitem__\<close> with an integer, and with a slice whose step is 1 (the only slices the
  tools take): \<open>slice.indices\<close> clamps the two bounds to the declared length, an absent
  bound being \<open>None\<close>.
\<close>

definition getitem_int :: "SnappyDecompress \<Rightarrow> int \<Rightarrow> (error + byte) \<times> SnappyDecompress" where
  "getitem_int s item =
     (case uncompress_till s item of
        (Some e, s') \<Rightarrow> (Inl e, s')
      | (None, s') \<Rightarrow>
          (case py_index (uncompressed_data s') item of
             None \<Rightarrow> Inl IndexError
           | Some b \<Rightarrow> Inr b, s'))"

definition slice_bound :: "int option \<Rightarrow> nat \<Rightarrow> nat \<Rightarrow> nat" where
  "slice_bound b dflt n =
     (case b of
        None \<Rightarrow> dflt
      | Some j \<Rightarrow> if j < 0 then nat (max (j + int n) 0) else nat (min j (int n)))"

definition getitem_slice ::
  "SnappyDecompress \<Rightarrow> int option \<Rightarrow> int option \<Rightarrow> (error + bytes) \<times> SnappyDecompress" where
  "getitem_slice s start stop =
     (let n = uncompressed_length s;
          a = slice_bound start 0 n;
          b = slice_bound stop n n
      in case uncompress_till s (int (max a b)) of
           (Some e, s') \<Rightarrow> (Inl e, s')
         | (None, s') \<Rightarrow> (Inr (take (b - a) (drop a (uncompressed_data s'))), s'))"

text \<open>A request is either kind of access; \<open>requests\<close> makes a sequence of them on one
  object and gives the state the object ends in.\<close>

datatype request = Item int | Slice "int option" "int option"

definition request_state :: "SnappyDecompress \<Rightarrow> request \<Rightarrow> SnappyDecompress" where
  "request_state s r =
     (case r of
        Item i \<Rightarrow> snd (getitem_int s i)
      | Slice a b \<Rightarrow> snd (getitem_slice s a b))"

definition requests :: "SnappyDecompress \<Rightarrow> request list \<Rightarrow> SnappyDecompress" where
  "requests s rs = fold (\<lambda>r s. request_state s r) rs s"

text \<open>\<open>SnappyDecompress(compressed, base)[:]\<close>, the whole output, as \<open>main\<close> of
  tc_fix_rams.py takes it.\<close>

definition SnappyDecompress_all :: "bytes \<Rightarrow> nat \<Rightarrow> error + bytes" where
  "SnappyDecompress_all compressed base =
     (case SnappyDecompress_init compressed base of
        Inl e \<Rightarrow> Inl e
      | Inr s \<Rightarrow> fst (getitem_slice s None None))"




text \<open>\<open>grows s s'\<close>: the object went from \<open>s\<close> to \<open>s'\<close> by appending output and moving
  the read position forward only.\<close>

definition grows :: "SnappyDecompress \<Rightarrow> SnappyDecompress \<Rightarrow> bool" where
  "grows s s' =
     (take (length (uncompressed_data s)) (uncompressed_data s') = uncompressed_data s
      \<and> length (uncompressed_data s) \<le> length (uncompressed_data s')
      \<and> index s \<le> index s'
      \<and> compressed_data s' = compressed_data s
      \<and> uncompressed_length s' = uncompressed_length s)"

section \<open>The schema combinators\<close>

text \<open>
  A parser takes the buffer and an offset and returns the value and the next offset,
  or raises; an unparser takes the value and returns its bytes, or raises. \<open>bnd\<close>
  sequences two steps, the first exception ending the computation. \<open>py_slice data a b\<close> is
  the slice \<open>data[a:b]\<close> for \<open>0 \<le> a \<le> b\<close>: it is cut short without error where the buffer ends.
\<close>

type_synonym 'a parser = "bytes \<Rightarrow> nat \<Rightarrow> error + ('a \<times> nat)"
type_synonym 'a unparser = "'a \<Rightarrow> error + bytes"

definition bnd :: "error + 'a \<Rightarrow> ('a \<Rightarrow> error + 'b) \<Rightarrow> error + 'b" where
  "bnd m f = (case m of Inl e \<Rightarrow> Inl e | Inr a \<Rightarrow> f a)"

definition py_slice :: "'a list \<Rightarrow> nat \<Rightarrow> nat \<Rightarrow> 'a list" where
  "py_slice data a b = take (b - a) (drop a data)"

definition U :: "nat \<Rightarrow> int parser" where
  "U n data i = Inr (int_from_bytes (py_slice data i (i + n)) False, i + n)"

definition U_unparse :: "nat \<Rightarrow> int unparser" where
  "U_unparse n x = int_to_bytes x n False"

definition S :: "nat \<Rightarrow> int parser" where
  "S n data i = Inr (int_from_bytes (py_slice data i (i + n)) True, i + n)"

definition S_unparse :: "nat \<Rightarrow> int unparser" where
  "S_unparse n x = int_to_bytes x n True"

text \<open>
  \<open>seq f l\<close>: the length is read with \<open>l\<close> and compared with the length of the whole
  buffer; \<open>range(length)\<close> is empty for a negative length. \<open>seq_loop\<close> is the \<open>for\<close> loop
  with \<open>n\<close> elements to go.
\<close>

fun seq_loop :: "'a parser \<Rightarrow> bytes \<Rightarrow> nat \<Rightarrow> nat \<Rightarrow> 'a list \<Rightarrow> error + ('a list \<times> nat)" where
  "seq_loop f data i 0 out = Inr (out, i)"
| "seq_loop f data i (Suc n) out =
     (case f data i of
        Inl e \<Rightarrow> Inl e
      | Inr (e, i') \<Rightarrow> seq_loop f data i' n (out @ [e]))"

definition seq :: "'a parser \<Rightarrow> int parser \<Rightarrow> 'a list parser" where
  "seq f l data i =
     bnd (l data i) (\<lambda>(len, i1).
       if len < int (length data) then seq_loop f data i1 (nat len) []
       else Inl AssertionError)"

text \<open>\<open>b''.join(f_un(e) for e in x)\<close>.\<close>

fun join_unparse :: "'a unparser \<Rightarrow> 'a list \<Rightarrow> error + bytes" where
  "join_unparse f_un [] = Inr []"
| "join_unparse f_un (e # es) =
     bnd (f_un e) (\<lambda>b. bnd (join_unparse f_un es) (\<lambda>bs. Inr (b @ bs)))"

definition seq_unparse :: "'a unparser \<Rightarrow> int unparser \<Rightarrow> 'a list unparser" where
  "seq_unparse f_un l_un x =
     bnd (l_un (int (length x))) (\<lambda>lb. bnd (join_unparse f_un x) (\<lambda>bs. Inr (lb @ bs)))"

definition pair :: "'a parser \<Rightarrow> 'b parser \<Rightarrow> ('a \<times> 'b) parser" where
  "pair f g data i =
     bnd (f data i) (\<lambda>(a, i1). bnd (g data i1) (\<lambda>(b, i2). Inr ((a, b), i2)))"

definition pair_unparse :: "'a unparser \<Rightarrow> 'b unparser \<Rightarrow> ('a \<times> 'b) unparser" where
  "pair_unparse f_un g_un x =
     bnd (f_un (fst x)) (\<lambda>a. bnd (g_un (snd x)) (\<lambda>b. Inr (a @ b)))"

text \<open>
  A Python \<open>str\<close> is the list of its code points. \<open>bytes.decode('utf-8')\<close> accepts
  exactly the well-formed UTF-8 sequences (no overlong forms, no surrogates, nothing
  above U+10FFFF) and raises UnicodeDecodeError otherwise; \<open>str.encode('utf-8')\<close>
  raises UnicodeEncodeError on a surrogate.
\<close>

type_synonym str = "nat list"

definition cont :: "byte \<Rightarrow> bool" where
  "cont b = (0x80 \<le> unat b \<and> unat b \<le> 0xBF)"

fun utf8_decode :: "bytes \<Rightarrow> str option" where
  "utf8_decode [] = Some []"
| "utf8_decode (b0 # bs) =
     (if unat b0 < 0x80 then map_option (Cons (unat b0)) (utf8_decode bs)
      else if 0xC2 \<le> unat b0 \<and> unat b0 \<le> 0xDF then
        (case bs of
           b1 # r \<Rightarrow>
             if cont b1
             then map_option (Cons ((unat b0 - 0xC0) * 64 + (unat b1 - 0x80))) (utf8_decode r)
             else None
         | _ \<Rightarrow> None)
      else if 0xE0 \<le> unat b0 \<and> unat b0 \<le> 0xEF then
        (case bs of
           b1 # b2 # r \<Rightarrow>
             if (if unat b0 = 0xE0 then 0xA0 else 0x80) \<le> unat b1
                \<and> unat b1 \<le> (if unat b0 = 0xED then 0x9F else 0xBF) \<and> cont b2
             then map_option
                    (Cons ((unat b0 - 0xE0) * 4096 + (unat b1 - 0x80) * 64 + (unat b2 - 0x80)))
                    (utf8_decode r)
             else None
         | _ \<Rightarrow> None)
      else if 0xF0 \<le> unat b0 \<and> unat b0 \<le> 0xF4 then
        (case bs of
           b1 # b2 # b3 # r \<Rightarrow>
             if (if unat b0 = 0xF0 then 0x90 else 0x80) \<le> unat b1
                \<and> unat b1 \<le> (if unat b0 = 0xF4 then 0x8F else 0xBF) \<and> cont b2 \<and> cont b3
             then map_option
                    (Cons ((unat b0 - 0xF0) * 262144 + (unat b1 - 0x80) * 4096
                           + (unat b2 - 0x80) * 64 + (unat b3 - 0x80)))
                    (utf8_decode r)
             else None
         | _ \<Rightarrow> None)
      else None)"

definition utf8_encode_cp :: "nat \<Rightarrow> error + bytes" where
  "utf8_encode_cp c =
     (if c < 0x80 then Inr [word_of_nat c]
      else if c < 0x800 then Inr [word_of_nat (0xC0 + c div 64), word_of_nat (0x80 + c mod 64)]
      else if c < 0x10000 then
        (if 0xD800 \<le> c \<and> c \<le> 0xDFFF then Inl UnicodeEncodeError
         else Inr [word_of_nat (0xE0 + c div 4096), word_of_nat (0x80 + c div 64 mod 64),
                   word_of_nat (0x80 + c mod 64)])
      else if c < 0x110000 then
        Inr [word_of_nat (0xF0 + c div 262144), word_of_nat (0x80 + c div 4096 mod 64),
             word_of_nat (0x80 + c div 64 mod 64), word_of_nat (0x80 + c mod 64)]
      else Inl UnicodeEncodeError)"

definition utf8_encode :: "str \<Rightarrow> error + bytes" where
  "utf8_encode s = join_unparse utf8_encode_cp s"

text \<open>\<open>string()\<close>: every use in the schema takes the default length codec \<open>U(2)\<close>.\<close>

definition string :: "str parser" where
  "string data i =
     bnd (U 2 data i) (\<lambda>(len, i1).
       case utf8_decode (py_slice data i1 (i1 + nat len)) of
         None \<Rightarrow> Inl UnicodeDecodeError
       | Some s \<Rightarrow> Inr (s, i1 + nat len))"

definition string_unparse :: "str unparser" where
  "string_unparse x =
     bnd (utf8_encode x) (\<lambda>data. bnd (U_unparse 2 (int (length data))) (\<lambda>lb. Inr (lb @ data)))"

definition remainder :: "bytes parser" where
  "remainder data i = Inr (drop i data, length data)"

definition remainder_unparse :: "bytes unparser" where
  "remainder_unparse x = Inr x"

section \<open>The record schema\<close>

text \<open>
  The dataclasses, their fields prefixed with the initials of the class. \<open>Parser.parse\<close>
  runs the parsers of the fields in order, threading the offset, and keeps the bytes
  it went over in \<open>raw\<close>; \<open>Parser.unparse\<close> joins the unparsers of the fields, \<open>raw\<close>
  left out.
\<close>

record Point =
  p_raw :: bytes
  p_x :: int
  p_y :: int

record LinkedComponent =
  lc_raw :: bytes
  lc_permanent_id :: int
  lc_inner_id :: int
  lc_name :: str
  lc_offset :: int

record CustomCompData =
  ccd_raw :: bytes
  ccd_custom_id :: int
  ccd_static_states :: "(int \<times> int) list"

record Component =
  c_raw :: bytes
  c_component_kind :: int
  c_position :: Point
  c_rotation :: int
  c_permanent_id :: int
  c_custom_string :: str
  c_settings :: "int list"
  c_buffer_size :: int
  c_ui_order :: int
  c_word_size :: int
  c_linked_components :: "LinkedComponent list"
  c_selected_programs :: "(str \<times> str) list"
  c_custom_data :: "CustomCompData option"

record Schematic =
  s_raw :: bytes
  s_custom_id :: int
  s_hub_id :: int
  s_gate :: int
  s_delay :: int
  s_menu_visible :: int
  s_clock_speed :: int
  s_dependencies :: "int list"
  s_description :: str
  s_camera_position :: Point
  s_synced :: int
  s_dummy :: int
  s_player_data :: "int list"
  s_hub_description :: str
  s_components :: "Component list"
  s_wires :: bytes

definition Point_parse :: "Point parser" where
  "Point_parse data i =
     (if i \<ge> length data then Inl ValueError
      else bnd (S 2 data i) (\<lambda>(x, i1).
           bnd (S 2 data i1) (\<lambda>(y, i2).
           Inr (\<lparr>p_raw = py_slice data i i2, p_x = x, p_y = y\<rparr>, i2))))"

definition Point_unparse :: "Point unparser" where
  "Point_unparse v =
     bnd (S_unparse 2 (p_x v)) (\<lambda>b1.
     bnd (S_unparse 2 (p_y v)) (\<lambda>b2.
     Inr (b1 @ b2)))"

definition LinkedComponent_parse :: "LinkedComponent parser" where
  "LinkedComponent_parse data i =
     (if i \<ge> length data then Inl ValueError
      else bnd (S 8 data i) (\<lambda>(permanent_id, i1).
           bnd (S 8 data i1) (\<lambda>(inner_id, i2).
           bnd (string data i2) (\<lambda>(name, i3).
           bnd (S 8 data i3) (\<lambda>(offset, i4).
           Inr (\<lparr>lc_raw = py_slice data i i4, lc_permanent_id = permanent_id,
                 lc_inner_id = inner_id, lc_name = name, lc_offset = offset\<rparr>, i4))))))"

definition LinkedComponent_unparse :: "LinkedComponent unparser" where
  "LinkedComponent_unparse v =
     bnd (S_unparse 8 (lc_permanent_id v)) (\<lambda>b1.
     bnd (S_unparse 8 (lc_inner_id v)) (\<lambda>b2.
     bnd (string_unparse (lc_name v)) (\<lambda>b3.
     bnd (S_unparse 8 (lc_offset v)) (\<lambda>b4.
     Inr (b1 @ b2 @ b3 @ b4)))))"

definition CustomCompData_parse :: "CustomCompData parser" where
  "CustomCompData_parse data i =
     (if i \<ge> length data then Inl ValueError
      else bnd (S 8 data i) (\<lambda>(custom_id, i1).
           bnd (seq (pair (S 8) (S 8)) (U 2) data i1) (\<lambda>(static_states, i2).
           Inr (\<lparr>ccd_raw = py_slice data i i2, ccd_custom_id = custom_id,
                 ccd_static_states = static_states\<rparr>, i2))))"

definition CustomCompData_unparse :: "CustomCompData unparser" where
  "CustomCompData_unparse v =
     bnd (S_unparse 8 (ccd_custom_id v)) (\<lambda>b1.
     bnd (seq_unparse (pair_unparse (S_unparse 8) (S_unparse 8)) (U_unparse 2)
            (ccd_static_states v)) (\<lambda>b2.
     Inr (b1 @ b2)))"

text \<open>
  \<open>custom_data\<close> is parsed and unparsed only when \<open>component_kind == 78\<close>; otherwise it
  keeps its default \<open>None\<close> and contributes no bytes. Unparsing a component of kind 78
  whose \<open>custom_data\<close> is \<open>None\<close> calls \<open>fields(None)\<close>: TypeError.
\<close>

definition Component_parse :: "Component parser" where
  "Component_parse data i =
     (if i \<ge> length data then Inl ValueError
      else bnd (U 2 data i) (\<lambda>(component_kind, i1).
           bnd (Point_parse data i1) (\<lambda>(position, i2).
           bnd (U 1 data i2) (\<lambda>(rotation, i3).
           bnd (U 8 data i3) (\<lambda>(permanent_id, i4).
           bnd (string data i4) (\<lambda>(custom_string, i5).
           bnd (seq (U 8) (U 2) data i5) (\<lambda>(settings, i6).
           bnd (S 8 data i6) (\<lambda>(buffer_size, i7).
           bnd (S 2 data i7) (\<lambda>(ui_order, i8).
           bnd (S 8 data i8) (\<lambda>(word_size, i9).
           bnd (seq LinkedComponent_parse (U 2) data i9) (\<lambda>(linked_components, i10).
           bnd (seq (pair string string) (U 2) data i10) (\<lambda>(selected_programs, i11).
           bnd (if component_kind = 78
                then bnd (CustomCompData_parse data i11) (\<lambda>(cd, i12). Inr (Some cd, i12))
                else Inr (None, i11)) (\<lambda>(custom_data, i12).
           Inr (\<lparr>c_raw = py_slice data i i12, c_component_kind = component_kind,
                 c_position = position, c_rotation = rotation, c_permanent_id = permanent_id,
                 c_custom_string = custom_string, c_settings = settings,
                 c_buffer_size = buffer_size, c_ui_order = ui_order, c_word_size = word_size,
                 c_linked_components = linked_components,
                 c_selected_programs = selected_programs,
                 c_custom_data = custom_data\<rparr>, i12))))))))))))))"

definition Component_unparse :: "Component unparser" where
  "Component_unparse v =
     bnd (U_unparse 2 (c_component_kind v)) (\<lambda>b1.
     bnd (Point_unparse (c_position v)) (\<lambda>b2.
     bnd (U_unparse 1 (c_rotation v)) (\<lambda>b3.
     bnd (U_unparse 8 (c_permanent_id v)) (\<lambda>b4.
     bnd (string_unparse (c_custom_string v)) (\<lambda>b5.
     bnd (seq_unparse (U_unparse 8) (U_unparse 2) (c_settings v)) (\<lambda>b6.
     bnd (S_unparse 8 (c_buffer_size v)) (\<lambda>b7.
     bnd (S_unparse 2 (c_ui_order v)) (\<lambda>b8.
     bnd (S_unparse 8 (c_word_size v)) (\<lambda>b9.
     bnd (seq_unparse LinkedComponent_unparse (U_unparse 2) (c_linked_components v)) (\<lambda>b10.
     bnd (seq_unparse (pair_unparse string_unparse string_unparse) (U_unparse 2)
            (c_selected_programs v)) (\<lambda>b11.
     bnd (if c_component_kind v = 78
          then (case c_custom_data v of
                  None \<Rightarrow> Inl TypeError
                | Some cd \<Rightarrow> CustomCompData_unparse cd)
          else Inr []) (\<lambda>b12.
     Inr (b1 @ b2 @ b3 @ b4 @ b5 @ b6 @ b7 @ b8 @ b9 @ b10 @ b11 @ b12)))))))))))))"

text \<open>
  The fields of \<open>Schematic\<close> before \<open>components\<close> are gathered in \<open>Schematic_head\<close>, so
  that the offset at which the component list starts can be named; \<open>Schematic_parse\<close>
  goes on with \<open>components\<close> and \<open>wires\<close>.
\<close>

definition Schematic_head :: "Schematic parser" where
  "Schematic_head data i =
     bnd (S 8 data i) (\<lambda>(custom_id, i1).
     bnd (U 4 data i1) (\<lambda>(hub_id, i2).
     bnd (S 8 data i2) (\<lambda>(gate, i3).
     bnd (S 8 data i3) (\<lambda>(delay, i4).
     bnd (U 1 data i4) (\<lambda>(menu_visible, i5).
     bnd (U 8 data i5) (\<lambda>(clock_speed, i6).
     bnd (seq (S 8) (U 2) data i6) (\<lambda>(dependencies, i7).
     bnd (string data i7) (\<lambda>(description, i8).
     bnd (Point_parse data i8) (\<lambda>(camera_position, i9).
     bnd (U 1 data i9) (\<lambda>(synced, i10).
     bnd (U 2 data i10) (\<lambda>(dummy, i11).
     bnd (seq (U 8) (U 2) data i11) (\<lambda>(player_data, i12).
     bnd (string data i12) (\<lambda>(hub_description, i13).
     Inr (\<lparr>s_raw = [], s_custom_id = custom_id, s_hub_id = hub_id, s_gate = gate,
           s_delay = delay, s_menu_visible = menu_visible, s_clock_speed = clock_speed,
           s_dependencies = dependencies, s_description = description,
           s_camera_position = camera_position, s_synced = synced, s_dummy = dummy,
           s_player_data = player_data, s_hub_description = hub_description,
           s_components = [], s_wires = []\<rparr>, i13))))))))))))))"

definition Schematic_parse :: "Schematic parser" where
  "Schematic_parse data i =
     (if i \<ge> length data then Inl ValueError
      else bnd (Schematic_head data i) (\<lambda>(h, i13).
           bnd (seq Component_parse (S 8) data i13) (\<lambda>(components, i14).
           bnd (remainder data i14) (\<lambda>(wires, i15).
           Inr (h\<lparr>s_raw := py_slice data i i15, s_components := components, s_wires := wires\<rparr>,
                i15)))))"

definition Schematic_unparse :: "Schematic unparser" where
  "Schematic_unparse v =
     bnd (S_unparse 8 (s_custom_id v)) (\<lambda>b1.
     bnd (U_unparse 4 (s_hub_id v)) (\<lambda>b2.
     bnd (S_unparse 8 (s_gate v)) (\<lambda>b3.
     bnd (S_unparse 8 (s_delay v)) (\<lambda>b4.
     bnd (U_unparse 1 (s_menu_visible v)) (\<lambda>b5.
     bnd (U_unparse 8 (s_clock_speed v)) (\<lambda>b6.
     bnd (seq_unparse (S_unparse 8) (U_unparse 2) (s_dependencies v)) (\<lambda>b7.
     bnd (string_unparse (s_description v)) (\<lambda>b8.
     bnd (Point_unparse (s_camera_position v)) (\<lambda>b9.
     bnd (U_unparse 1 (s_synced v)) (\<lambda>b10.
     bnd (U_unparse 2 (s_dummy v)) (\<lambda>b11.
     bnd (seq_unparse (U_unparse 8) (U_unparse 2) (s_player_data v)) (\<lambda>b12.
     bnd (string_unparse (s_hub_description v)) (\<lambda>b13.
     bnd (seq_unparse Component_unparse (S_unparse 8) (s_components v)) (\<lambda>b14.
     bnd (remainder_unparse (s_wires v)) (\<lambda>b15.
     Inr (b1 @ b2 @ b3 @ b4 @ b5 @ b6 @ b7 @ b8 @ b9 @ b10 @ b11 @ b12 @ b13 @ b14 @ b15)
     )))))))))))))))"

section \<open>The field patcher\<close>

text \<open>
  The part of \<open>main\<close> of tc_fix_rams.py that works on the parsed schematic. The objects
  of \<open>ram_components\<close> are the components themselves, not copies: each is kept with its
  position in \<open>res.components\<close>, and assigning \<open>word_size\<close> changes the list at that
  position. \<open>sort\<close> is stable, so two entries are swapped only when the second has the
  smaller \<open>buffer_size\<close>. \<open>list.remove\<close> removes the first element equal to its
  argument, and dataclass equality compares all fields.
\<close>

definition fix_rams :: "Schematic \<Rightarrow> error + Schematic" where
  "fix_rams res =
     (let comps = s_components res;
          ram_components =
            filter (\<lambda>(k, comp). c_component_kind comp = 118) (enumerate 0 comps)
      in case ram_components of
           [a, b] \<Rightarrow>
             (let (reg_file, program) =
                    (if c_buffer_size (snd b) < c_buffer_size (snd a) then (b, a) else (a, b))
              in if c_buffer_size (snd reg_file) \<noteq> 256 then Inl ValueError
                 else if c_buffer_size (snd program) \<noteq> 65536 then Inl ValueError
                 else
                   (let reg_file' = (snd reg_file)\<lparr>c_word_size := 16\<rparr>;
                        program' = (snd program)\<lparr>c_word_size := 32\<rparr>;
                        comps1 = comps[fst reg_file := reg_file'];
                        comps2 = comps1[fst program := program'];
                        comps3 = remove1 reg_file' comps2;
                        comps4 = remove1 program' comps3
                    in Inr (res\<lparr>s_components := comps4 @ [reg_file', program']\<rparr>)))
         | _ \<Rightarrow> Inl ValueError)"

text \<open>
  \<open>main\<close>, on a file system that maps a path to the content of the file there. All the
  checks come before \<open>shutil.move\<close>; the new file is opened and its first byte written
  before \<open>res.unparse()\<close> and \<open>snappy_encode\<close> are evaluated, so an exception of these
  leaves the backup and a one-byte file.
\<close>

type_synonym files = "string \<Rightarrow> bytes option"

definition main :: "files \<Rightarrow> string \<Rightarrow> error option \<times> files" where
  "main fs circuit_file =
     (case fs circuit_file of
        None \<Rightarrow> (Some FileNotFoundError, fs)
      | Some content \<Rightarrow>
          (case bnd (if content = [] then Inl IndexError
                     else if content ! 0 \<noteq> 10 then Inl ValueError
                     else Inr ()) (\<lambda>_.
                bnd (SnappyDecompress_all content 1) (\<lambda>dc.
                bnd (Schematic_parse dc 0) (\<lambda>(res, _).
                fix_rams res))) of
             Inl e \<Rightarrow> (Some e, fs)
           | Inr res \<Rightarrow>
               (let fs1 = fs(circuit_file := None, circuit_file @ ''.bak'' \<mapsto> content)
                in case bnd (Schematic_unparse res) snappy_encode of
                     Inl e \<Rightarrow> (Some e, fs1(circuit_file \<mapsto> [0x0A]))
                   | Inr out \<Rightarrow> (None, fs1(circuit_file \<mapsto> 0x0A # out)))))"

text \<open>A component and a schematic with every field zero or empty, to write concrete
  inputs with.\<close>

abbreviation blank_component :: Component where
  "blank_component \<equiv>
     \<lparr>c_raw = [], c_component_kind = 0, c_position = \<lparr>p_raw = [], p_x = 0, p_y = 0\<rparr>,
      c_rotation = 0, c_permanent_id = 0, c_custom_string = [], c_settings = [],
      c_buffer_size = 0, c_ui_order = 0, c_word_size = 8, c_linked_components = [],
      c_selected_programs = [], c_custom_data = None\<rparr>"

abbreviation blank_schematic :: Schematic where
  "blank_schematic \<equiv>
     \<lparr>s_raw = [], s_custom_id = 0, s_hub_id = 0, s_gate = 0, s_delay = 0,
      s_menu_visible = 0, s_clock_speed = 0, s_dependencies = [], s_description = [],
      s_camera_position = \<lparr>p_raw = [], p_x = 0, p_y = 0\<rparr>, s_synced = 0,
      s_dummy = 0, s_player_data = [], s_hub_description = [], s_components = [],
      s_wires = []\<rparr>"


section \<open>The archive packager: dependency closure\<close>

text \<open>
  \<open>get_sch_id\<close> and \<open>extract_info\<close> read slices of a lazy decompressor, which each time
  decodes as far as the slice needs: the object goes in and comes out, as in
  \<open>getitem_slice\<close>. \<open>sbnd\<close> sequences two such steps.
\<close>

definition sbnd ::
  "(error + 'a) \<times> SnappyDecompress \<Rightarrow> ('a \<Rightarrow> SnappyDecompress \<Rightarrow> (error + 'b) \<times> SnappyDecompress)
   \<Rightarrow> (error + 'b) \<times> SnappyDecompress" where
  "sbnd m f = (case m of (Inl e, s) \<Rightarrow> (Inl e, s) | (Inr a, s) \<Rightarrow> f a s)"

definition get_sch_id :: "nat \<Rightarrow> SnappyDecompress \<Rightarrow> (error + nat) \<times> SnappyDecompress" where
  "get_sch_id version content =
     (if version \<notin> {6, 7, 8, 9, 10} then (Inl AssertionError, content)
      else sbnd (getitem_slice content (Some 0) (Some 8)) (\<lambda>b c. (Inr (from_bytes_le b), c)))"

text \<open>The list comprehension of \<open>extract_info\<close>, at element \<open>j\<close> with \<open>n\<close> elements to go.\<close>

fun dependencies_loop ::
  "SnappyDecompress \<Rightarrow> nat \<Rightarrow> nat \<Rightarrow> nat \<Rightarrow> nat list \<Rightarrow> (error + nat list) \<times> SnappyDecompress" where
  "dependencies_loop content i j 0 acc = (Inr acc, content)"
| "dependencies_loop content i j (Suc n) acc =
     (case getitem_slice content (Some (int (i + j * 8))) (Some (int (i + (j + 1) * 8))) of
        (Inl e, c) \<Rightarrow> (Inl e, c)
      | (Inr b, c) \<Rightarrow> dependencies_loop c i (j + 1) n (acc @ [from_bytes_le b]))"

definition extract_info ::
  "nat \<Rightarrow> SnappyDecompress \<Rightarrow> (error + nat \<times> (nat \<times> nat) \<times> nat list) \<times> SnappyDecompress" where
  "extract_info version content =
     (if version \<notin> {6, 7, 8, 9, 10} then (Inl AssertionError, content)
      else
        sbnd (getitem_slice content (Some 0) (Some 8)) (\<lambda>b0 c1.
        let schematic_id = from_bytes_le b0; i1 = 8 + 4 in
        sbnd (getitem_slice c1 (Some (int i1)) (Some (int (i1 + 8)))) (\<lambda>b1 c2.
        let gate = from_bytes_le b1; i2 = i1 + 8 in
        sbnd (getitem_slice c2 (Some (int i2)) (Some (int (i2 + 8)))) (\<lambda>b2 c3.
        let delay = from_bytes_le b2; i3 = i2 + 8 + 1;
            i4 = (if version \<in> {6} then i3 + 4 else i3 + 8) in
        sbnd (getitem_slice c3 (Some (int i4)) (Some (int (i4 + 2)))) (\<lambda>b3 c4.
        let dependency_count = from_bytes_le b3; i5 = i4 + 2 in
        sbnd (dependencies_loop c4 i5 0 dependency_count []) (\<lambda>dependencies c5.
        (Inr (schematic_id, (gate, delay), dependencies), c5)))))))"

text \<open>
  The catalog \<open>ccs\<close> is a dict from id to \<open>(cc_name, path, (v, dc))\<close>: an association
  list in which the binding put last comes first, looked up with \<open>map_of\<close>.
  \<open>scan_component_factory\<close> takes the files that \<open>rglob\<close> finds, each with its name
  relative to the component factory, its path and its content.
\<close>

type_synonym catalog = "(nat \<times> (string \<times> string \<times> nat \<times> SnappyDecompress)) list"

fun scan_loop :: "(string \<times> string \<times> bytes) list \<Rightarrow> catalog \<Rightarrow> error + catalog" where
  "scan_loop [] out = Inr out"
| "scan_loop ((cc_name, e, c) # rest) out =
     (if c = [] then Inl IndexError
      else
        (let v = unat (c ! 0) in
         case SnappyDecompress_init_arch c 1 of
           Inl err \<Rightarrow> Inl err
         | Inr dc \<Rightarrow>
             (case get_sch_id v dc of
                (Inl err, dc') \<Rightarrow> Inl err
              | (Inr ccid, dc') \<Rightarrow> scan_loop rest ((ccid, (cc_name, e, v, dc')) # out))))"

definition scan_component_factory :: "(string \<times> string \<times> bytes) list \<Rightarrow> error + catalog" where
  "scan_component_factory cc_files = scan_loop cc_files []"

text \<open>
  The \<open>while queue\<close> loop of \<open>collect_files\<close>. \<open>queue.pop()\<close> takes the last element. The
  set \<open>to_extract\<close> is the list of its elements in the order they were added. An entry
  of the catalog is read at most once, when its id is first met, so the state its
  decompressor is left in is dropped.
\<close>

function collect_loop :: "catalog \<Rightarrow> nat list \<Rightarrow> nat list \<Rightarrow> error + nat list" where
  "collect_loop ccs queue to_extract =
     (if queue = [] then Inr to_extract
      else
        (let ccid = last queue; queue' = butlast queue in
         if ccid \<in> set to_extract then collect_loop ccs queue' to_extract
         else
           (case map_of ccs ccid of
              None \<Rightarrow> Inl ValueError
            | Some (cc_name, path, v, dc) \<Rightarrow>
                (case fst (extract_info v dc) of
                   Inl e \<Rightarrow> Inl e
                 | Inr (schematic_id, gate_delay, dependencies) \<Rightarrow>
                     if 0 \<in> set dependencies then Inl AssertionError
                     else collect_loop ccs (queue' @ dependencies) (to_extract @ [ccid])))))"
  by pat_completeness auto
termination
proof (relation "measures [\<lambda>(ccs, queue, to_extract). card (fst ` set ccs - set to_extract),
                           \<lambda>(ccs, queue, to_extract). length queue]")
  show "wf (measures [\<lambda>(ccs, queue, to_extract). card (fst ` set ccs - set to_extract),
                      \<lambda>(ccs, queue, to_extract). length queue])"
    by simp
next
  fix ccs :: catalog and queue to_extract :: "nat list" and ccid queue'
  assume "queue \<noteq> []" and "ccid = last queue" and "queue' = butlast queue"
    and "ccid \<in> set to_extract"
  then show "((ccs, queue', to_extract), (ccs, queue, to_extract))
        \<in> measures [\<lambda>(ccs, queue, to_extract). card (fst ` set ccs - set to_extract),
                     \<lambda>(ccs, queue, to_extract). length queue]"
    by simp
next
  fix ccs :: catalog and queue to_extract :: "nat list" and ccid queue' x2 and dependencies :: "nat list"
  assume "ccid \<notin> set to_extract" and "map_of ccs ccid = Some x2"
  then have "ccid \<in> fst ` set ccs - set to_extract"
    by (auto dest: map_of_SomeD intro: rev_image_eqI)
  moreover have "finite (fst ` set ccs - set to_extract)"
    by simp
  ultimately have "card (fst ` set ccs - set to_extract - {ccid}) < card (fst ` set ccs - set to_extract)"
    by (rule card_Diff1_less [rotated])
  moreover have "fst ` set ccs - set (to_extract @ [ccid]) = (fst ` set ccs - set to_extract) - {ccid}"
    by auto
  ultimately have "card (fst ` set ccs - set (to_extract @ [ccid])) < card (fst ` set ccs - set to_extract)"
    by (simp only:)
  then show "((ccs, queue' @ dependencies, to_extract @ [ccid]), (ccs, queue, to_extract))
        \<in> measures [\<lambda>(ccs, queue, to_extract). card (fst ` set ccs - set to_extract),
                     \<lambda>(ccs, queue, to_extract). length queue]"
    by simp
qed

declare collect_loop.simps [simp del]

text \<open>
  \<open>collect_files\<close>: \<open>main_path\<close> is the path of the target's \<open>circuit.data\<close> (the
  variable \<open>main\<close>) and \<open>main_file\<close> its content, or \<open>None\<close> when there is no such file. The result is the dict \<open>out\<close> from name to path,
  with the target's gate and delay.
\<close>

definition collect_files ::
  "string \<Rightarrow> string \<Rightarrow> bytes option \<Rightarrow> (string \<times> string \<times> bytes) list
   \<Rightarrow> error + ((string \<Rightarrow> string option) \<times> nat \<times> nat)" where
  "collect_files arch_name main_path main_file cc_files =
     (case main_file of
        None \<Rightarrow> Inl AssertionError
      | Some content \<Rightarrow>
          bnd (scan_component_factory cc_files) (\<lambda>ccs.
          if content = [] then Inl IndexError
          else
            (let v = unat (content ! 0) in
             bnd (SnappyDecompress_init_arch content 1) (\<lambda>dc.
             bnd (fst (extract_info v dc)) (\<lambda>(main_id, (gate, delay), dependencies).
             bnd (collect_loop ccs dependencies []) (\<lambda>to_extract.
             Inr (fold (\<lambda>ccid out.
                          case map_of ccs ccid of
                            None \<Rightarrow> out
                          | Some (name, path, args) \<Rightarrow> out(name \<mapsto> path))
                    to_extract [arch_name \<mapsto> main_path], gate, delay)))))))"

text \<open>
  \<open>exact p u data\<close>: on this buffer the parser \<open>p\<close> never moves the offset back, and
  whenever it succeeds without going past the end of the buffer, the unparser \<open>u\<close> gives
  back exactly the bytes it went over.
\<close>

definition exact :: "'a parser \<Rightarrow> 'a unparser \<Rightarrow> bytes \<Rightarrow> bool" where
  "exact p u data =
     (\<forall>i v j. p data i = Inr (v, j) \<longrightarrow>
        i \<le> j \<and> (j \<le> length data \<longrightarrow> u v = Inr (py_slice data i j)))"

section \<open>Bit arithmetic on natural numbers\<close>

lemma and_7f_mod: "(x::nat) AND 0x7f = x mod 128"
proof -
  have m: "(mask 7 :: nat) = 0x7f" by (simp add: mask_eq_exp_minus_1)
  have "x AND mask 7 = x mod 2 ^ 7"
    by (simp only: take_bit_eq_mask [symmetric] take_bit_eq_mod)
  then show ?thesis unfolding m by simp
qed

lemma and_80_iff: "((x::nat) AND 0x80 = 0) = (x mod 256 < 128)"
proof -
  have e: "(0x80::nat) = 2 ^ 7" by simp
  have b: "(x AND 0x80 = 0) = (\<not> bit x 7)"
    unfolding e by (simp only: and_exp_eq_0_iff_not_bit)
  have o: "bit x 7 = odd (x div 128)" by (simp add: bit_iff_odd)
  have "odd (x div 128) = (128 \<le> x mod 256)"
  proof -
    have "x mod 256 = x mod 128 + 128 * (x div 128 mod 2)"
      using mod_mult2_eq [of x 128 2] by simp
    moreover have "x mod 128 < 128" by simp
    ultimately show ?thesis by (cases "x div 128 mod 2 = 0") (auto simp: odd_iff_mod_2_eq_one)
  qed
  then show ?thesis unfolding b o by auto
qed

lemma or_push_bit_add: "out < 2 ^ j \<Longrightarrow> out OR push_bit j x = out + push_bit j (x::nat)"
proof -
  assume a: "out < 2 ^ j"
  have nb: "\<not> bit out n" if "j \<le> n" for n
  proof -
    have "(2::nat) ^ j \<le> 2 ^ n" using that by simp
    then have "out < 2 ^ n" using a by (rule order.strict_trans2[rotated])
    then have "out div 2 ^ n = 0" by (rule div_less)
    then show ?thesis by (simp add: bit_iff_odd)
  qed
  have "out + push_bit j x = out OR push_bit j x"
    by (rule disjunctive_add) (use nb in \<open>auto simp: bit_push_bit_iff\<close>)
  then show ?thesis by simp
qed

lemma push7_or: "g < 128 \<Longrightarrow> push_bit 7 out OR g = out * 128 + (g::nat)"
proof -
  assume "g < 128"
  then have "g OR push_bit 7 out = g + push_bit 7 out"
    by (intro or_push_bit_add) simp
  then show ?thesis by (simp add: or.commute push_bit_eq_mult)
qed

section \<open>The two varint readers\<close>


lemma and_7f_less: "(x::nat) AND 0x7f < 128"
  by (simp add: and_7f_mod)

lemma le_value_append: "le_value (gs @ hs) = le_value gs + 128 ^ length gs * le_value hs"
  by (induction gs) (auto simp: algebra_simps)

lemma le_value_inj:
  "length xs = length ys \<Longrightarrow> \<forall>x\<in>set xs. x < 128 \<Longrightarrow> \<forall>y\<in>set ys. y < 128 \<Longrightarrow>
   le_value xs = le_value ys \<Longrightarrow> xs = ys"
proof (induction xs ys rule: list_induct2)
  case Nil
  then show ?case by simp
next
  case (Cons x xs y ys)
  from Cons.prems have lt: "x < 128" "y < 128" by auto
  from Cons.prems have eq: "x + 128 * le_value xs = y + 128 * le_value ys" by simp
  from eq have "(x + 128 * le_value xs) mod 128 = (y + 128 * le_value ys) mod 128"
    by simp
  with lt have "x = y" by simp
  with eq have "le_value xs = le_value ys" by simp
  with Cons \<open>x = y\<close> show ?case by simp
qed

lemma groups_less: "\<forall>g\<in>set (groups bs). g < 128"
  by (simp add: groups_def and_7f_less)

lemma fix_loop:
  assumes "\<forall>b\<in>set cs. unat b AND 0x80 \<noteq> 0" and "unat l AND 0x80 = 0"
    and "out < 2 ^ j" and "lastb AND 0x80 \<noteq> 0"
  shows "read_varint_fix_loop (pre @ cs @ l # rest) (length pre) out j lastb =
           Inr (out + 2 ^ j * le_value (groups (cs @ [l])), length pre + length cs + 1)"
  using assms
proof (induction cs arbitrary: pre out j lastb)
  case Nil
  have "read_varint_fix_loop (pre @ l # rest) (length pre) out j lastb =
        read_varint_fix_loop (pre @ l # rest) (length pre + 1)
          (out OR push_bit j (unat l AND 0x7f)) (j + 7) (unat l)"
    using Nil.prems by (subst read_varint_fix_loop.simps) simp
  also have "\<dots> = Inr (out OR push_bit j (unat l AND 0x7f), length pre + 1)"
    using Nil.prems by (subst read_varint_fix_loop.simps) simp
  finally have r: "read_varint_fix_loop (pre @ l # rest) (length pre) out j lastb =
        Inr (out OR push_bit j (unat l AND 0x7f), length pre + 1)" .
  have "out OR push_bit j (unat l AND 0x7f) = out + push_bit j (unat l AND 0x7f)"
    by (rule or_push_bit_add) (rule Nil.prems)
  then have "out OR push_bit j (unat l AND 0x7f) = out + 2 ^ j * (unat l AND 0x7f)"
    by (simp add: push_bit_eq_mult)
  with r show ?case by (simp add: groups_def)
next
  case (Cons c cs)
  let ?g = "unat c AND 0x7f"
  have step: "read_varint_fix_loop (pre @ (c # cs) @ l # rest) (length pre) out j lastb =
        read_varint_fix_loop ((pre @ [c]) @ cs @ l # rest) (length (pre @ [c]))
          (out OR push_bit j ?g) (j + 7) (unat c)"
    using Cons.prems by (subst read_varint_fix_loop.simps) simp
  have "out OR push_bit j ?g = out + push_bit j ?g"
    by (rule or_push_bit_add) (rule Cons.prems)
  then have o: "out OR push_bit j ?g = out + 2 ^ j * ?g"
    by (simp add: push_bit_eq_mult)
  have "2 ^ j * ?g \<le> 2 ^ j * 127"
    using and_7f_less [of "unat c"] by simp
  with Cons.prems(3) have "out + 2 ^ j * ?g < 2 ^ j * 128"
    by linarith
  then have bound: "out + 2 ^ j * ?g < 2 ^ (j + 7)"
    by (simp add: power_add)
  have "read_varint_fix_loop ((pre @ [c]) @ cs @ l # rest) (length (pre @ [c]))
          (out + 2 ^ j * ?g) (j + 7) (unat c) =
        Inr (out + 2 ^ j * ?g + 2 ^ (j + 7) * le_value (groups (cs @ [l])),
             length (pre @ [c]) + length cs + 1)"
    using Cons.prems bound by (intro Cons.IH) auto
  with step o show ?case
    by (simp add: groups_def power_add algebra_simps)
qed

lemma arch_loop:
  assumes "\<forall>b\<in>set cs. unat b AND 0x80 \<noteq> 0" and "unat l AND 0x80 = 0"
    and "lastb AND 0x80 \<noteq> 0"
  shows "read_varint_arch_loop (pre @ cs @ l # rest) (length pre) out lastb =
           Inr (out * 128 ^ (length cs + 1) + le_value (rev (groups (cs @ [l]))),
                length pre + length cs + 1)"
  using assms
proof (induction cs arbitrary: pre out lastb)
  case Nil
  have "read_varint_arch_loop (pre @ l # rest) (length pre) out lastb =
        read_varint_arch_loop (pre @ l # rest) (length pre + 1)
          (push_bit 7 out OR (unat l AND 0x7f)) (unat l)"
    using Nil.prems by (subst read_varint_arch_loop.simps) simp
  also have "\<dots> = Inr (push_bit 7 out OR (unat l AND 0x7f), length pre + 1)"
    using Nil.prems by (subst read_varint_arch_loop.simps) simp
  finally show ?case
    by (simp add: push7_or and_7f_less groups_def)
next
  case (Cons c cs)
  let ?g = "unat c AND 0x7f"
  have step: "read_varint_arch_loop (pre @ (c # cs) @ l # rest) (length pre) out lastb =
        read_varint_arch_loop ((pre @ [c]) @ cs @ l # rest) (length (pre @ [c]))
          (push_bit 7 out OR ?g) (unat c)"
    using Cons.prems by (subst read_varint_arch_loop.simps) simp
  have o: "push_bit 7 out OR ?g = out * 128 + ?g"
    by (simp add: push7_or and_7f_less)
  have "read_varint_arch_loop ((pre @ [c]) @ cs @ l # rest) (length (pre @ [c]))
          (out * 128 + ?g) (unat c) =
        Inr ((out * 128 + ?g) * 128 ^ (length cs + 1) + le_value (rev (groups (cs @ [l]))),
             length (pre @ [c]) + length cs + 1)"
    using Cons.prems by (intro Cons.IH) auto
  with step o show ?case
    by (simp add: groups_def le_value_append algebra_simps)
qed

text \<open>
  Claim C5, as amended. A complete varint is a run \<open>cs\<close> of bytes with the high bit set
  followed by one byte \<open>l\<close> with the high bit clear. On it the reader of
  tc_extract_arch.py returns the 7-bit groups read most-significant first, the reader of
  tc_fix_rams.py returns them read least-significant first, both stop after the same
  byte, and the two results are equal exactly when the sequence of groups is a
  palindrome. So the readers disagree on some multi-byte varints, not on all of them.
\<close>

theorem varint_readers_agree_iff_palindrome:
  assumes "\<forall>b\<in>set cs. unat b AND 0x80 \<noteq> 0" and "unat l AND 0x80 = 0"
  shows "read_varint_arch (pre @ cs @ l # rest) (length pre) =
           Inr (le_value (rev (groups (cs @ [l]))), length pre + length cs + 1)
       \<and> read_varint_fix (pre @ cs @ l # rest) (length pre) =
           Inr (le_value (groups (cs @ [l])), length pre + length cs + 1)
       \<and> (read_varint_arch (pre @ cs @ l # rest) (length pre) =
            read_varint_fix (pre @ cs @ l # rest) (length pre)
          \<longleftrightarrow> rev (groups (cs @ [l])) = groups (cs @ [l]))"
proof -
  let ?gs = "groups (cs @ [l])"
  have a: "read_varint_arch (pre @ cs @ l # rest) (length pre) =
           Inr (le_value (rev ?gs), length pre + length cs + 1)"
    unfolding read_varint_arch_def using arch_loop [OF assms, of 128 pre rest 0] by simp
  have f: "read_varint_fix (pre @ cs @ l # rest) (length pre) =
           Inr (le_value ?gs, length pre + length cs + 1)"
    unfolding read_varint_fix_def using fix_loop [OF assms, of 0 0 128 pre rest] by simp
  have "le_value (rev ?gs) = le_value ?gs \<longleftrightarrow> rev ?gs = ?gs"
    using le_value_inj [of "rev ?gs" ?gs] groups_less [of "cs @ [l]"] by auto
  with a f show ?thesis by simp
qed

theorem varint_readers_agree_iff_palindrome_witness:
  "unat (0x80 :: byte) AND 0x80 \<noteq> 0 \<and> unat (0x01 :: byte) AND 0x80 = 0
   \<and> read_varint_arch [0x80, 0x01] 0 = Inr (1, 2)
   \<and> read_varint_fix [0x80, 0x01] 0 = Inr (128, 2)"
  using varint_readers_agree_iff_palindrome [of "[0x80]" "0x01" "[]" "[]"]
  by (simp add: groups_def)

text \<open>
  The two-byte varint \<open>0x81 0x01\<close> has the groups 1, 1: both readers return 129.
\<close>

theorem varint_readers_differ_counterexample:
  "read_varint_arch [0x81, 0x01] 0 = Inr (129, 2) \<and> read_varint_fix [0x81, 0x01] 0 = Inr (129, 2)"
  by (simp add: read_varint_arch_def read_varint_fix_def
        read_varint_arch_loop.simps read_varint_fix_loop.simps)

section \<open>Integer conversions and the literal-only encoder\<close>

lemma length_le_bytes [simp]: "length (le_bytes n x) = n"
  by (induction n arbitrary: x) auto

lemma unat_byte_of_nat: "unat (word_of_nat x :: byte) = x mod 256"
  by (simp add: unat_of_nat)

lemma le_bytes_numeral:
  "le_bytes (numeral k) x = word_of_nat x # le_bytes (pred_numeral k) (x div 256)"
  by (subst numeral_eq_Suc) simp

lemma byte_256: "(256 :: byte) = 0"
  by simp

lemma from_bytes_le_le_bytes: "from_bytes_le (le_bytes n x) = x mod 256 ^ n"
proof (induction n arbitrary: x)
  case 0
  then show ?case by simp
next
  case (Suc n)
  have "x mod (256 * 256 ^ n) = 256 * (x div 256 mod 256 ^ n) + x mod 256"
    by (rule mod_mult2_eq)
  with Suc show ?case by (simp add: unat_byte_of_nat)
qed

lemma le_bytes_from_bytes_le: "le_bytes (length bs) (from_bytes_le bs) = bs"
proof (induction bs)
  case Nil
  then show ?case by simp
next
  case (Cons b bs)
  have "unat b < 256" using unsigned_less [of b] by simp
  then have "(unat b + 256 * from_bytes_le bs) div 256 = from_bytes_le bs" by simp
  moreover have "(word_of_nat (unat b + 256 * from_bytes_le bs) :: byte) = b"
    by (simp add: byte_256)
  ultimately show ?case using Cons by simp
qed

lemma from_bytes_le_less: "from_bytes_le bs < 256 ^ length bs"
proof (induction bs)
  case Nil
  then show ?case by simp
next
  case (Cons b bs)
  have "unat b < 256" using unsigned_less [of b] by simp
  with Cons show ?case by simp
qed

text \<open>
  Claim C9, as amended. \<open>snappy_encode\<close> returns the empty byte string for the empty
  payload. For a non-empty payload of at most \<open>2 ^ 32\<close> bytes it returns
  \<open>make_varint (len payload)\<close>, the tag byte \<open>0b11111100\<close>, four bytes that read back
  (little-endian, unsigned) as \<open>len payload - 1\<close>, and the payload. For a longer payload
  \<open>len payload - 1\<close> does not fit four bytes and \<open>int.to_bytes\<close> raises OverflowError.
\<close>

theorem snappy_encode_shape:
  "snappy_encode [] = Inr []
   \<and> (data \<noteq> [] \<and> length data \<le> 2 ^ 32 \<longrightarrow>
        (\<exists>lb. length lb = 4 \<and> int_from_bytes lb False = int (length data) - 1
           \<and> snappy_encode data = Inr (make_varint (length data) @ [0xFC] @ lb @ data)))
   \<and> (2 ^ 32 < length data \<longrightarrow> snappy_encode data = Inl OverflowError)"
proof (intro conjI impI)
  show "snappy_encode [] = Inr []" by (simp add: snappy_encode_def)
next
  assume a: "data \<noteq> [] \<and> length data \<le> 2 ^ 32"
  let ?x = "int (length data) - 1"
  define lb where "lb = le_bytes 4 (length data - 1)"
  from a have pos: "0 < length data" by simp
  from a have le: "length data \<le> 4294967296" by simp
  have x: "int (length data - 1) = ?x" using pos by (simp add: of_nat_diff Suc_leI)
  from pos le have r: "0 \<le> ?x" "?x < 2 ^ 32" by auto
  then have rep: "representable ?x 4 False" by (simp add: representable_def)
  have m: "nat (?x mod 2 ^ (8 * 4)) = length data - 1" using r pos by simp
  have "from_bytes_le lb = (length data - 1) mod 256 ^ 4"
    unfolding lb_def by (rule from_bytes_le_le_bytes)
  also have "\<dots> = length data - 1"
  proof (rule mod_less)
    from pos le show "length data - 1 < 256 ^ 4" by simp
  qed
  finally have "int_from_bytes lb False = int (length data - 1)"
    by (simp add: int_from_bytes_def)
  with x have v: "int_from_bytes lb False = ?x" by simp
  have len: "length lb = 4" by (simp add: lb_def)
  have "int_to_bytes ?x 4 False = Inr lb"
    unfolding int_to_bytes_def lb_def using rep m by simp
  with a have "snappy_encode data = Inr (make_varint (length data) @ [0xFC] @ lb @ data)"
    by (simp add: snappy_encode_def)
  with v len show "\<exists>lb. length lb = 4 \<and> int_from_bytes lb False = ?x
           \<and> snappy_encode data = Inr (make_varint (length data) @ [0xFC] @ lb @ data)"
    by blast
next
  assume "2 ^ 32 < length data"
  then have "\<not> representable (int (length data) - 1) 4 False" "data \<noteq> []"
    by (auto simp: representable_def)
  then show "snappy_encode data = Inl OverflowError"
    by (simp add: snappy_encode_def int_to_bytes_def)
qed

theorem snappy_encode_shape_witness:
  "[0x61 :: byte] \<noteq> [] \<and> length [0x61 :: byte] \<le> 2 ^ 32
   \<and> snappy_encode [0x61] = Inr [0x01, 0xFC, 0x00, 0x00, 0x00, 0x00, 0x61]
   \<and> 2 ^ 32 < length (replicate (2 ^ 32 + 1) (0 :: byte))
   \<and> snappy_encode (replicate (2 ^ 32 + 1) (0 :: byte)) = Inl OverflowError"
proof -
  have small: "snappy_encode [0x61] = Inr [0x01, 0xFC, 0x00, 0x00, 0x00, 0x00, 0x61]"
    using snappy_encode_shape [of "[0x61]"]
    by (simp add: snappy_encode_def int_to_bytes_def representable_def make_varint_def
          make_varint_loop.simps le_bytes_numeral)
  have big: "snappy_encode (replicate (2 ^ 32 + 1) (0 :: byte)) = Inl OverflowError"
    using snappy_encode_shape [of "replicate (2 ^ 32 + 1) 0"] by simp
  from small big show ?thesis by simp
qed

text \<open>A payload of \<open>2 ^ 32 + 1\<close> bytes is not encoded: OverflowError.\<close>

theorem snappy_encode_overflow_counterexample:
  "snappy_encode (replicate (2 ^ 32 + 1) 0) = Inl OverflowError"
  by (simp add: snappy_encode_def int_to_bytes_def representable_def)

section \<open>The lazy decompressor: copies, literals and requests\<close>


lemma py_index_None:
  "py_index xs j = None \<longleftrightarrow> int (length xs) \<le> j \<or> j + int (length xs) < 0"
  by (auto simp: py_index_def Let_def)

lemma copy_loop_prefix:
  "copy_loop k i n out = (e, out') \<Longrightarrow> \<exists>ext. out' = out @ ext \<and> length ext \<le> n"
proof (induction n arbitrary: i out)
  case 0
  then show ?case by simp
next
  case (Suc n)
  show ?case
  proof (cases "py_index out (k + int i)")
    case None
    with Suc.prems show ?thesis by simp
  next
    case (Some b)
    with Suc.prems have "copy_loop k (i + 1) n (out @ [b]) = (e, out')" by simp
    from Suc.IH [OF this] obtain ext where "out' = (out @ [b]) @ ext" "length ext \<le> n" by blast
    then show ?thesis by (intro exI [of _ "b # ext"]) simp
  qed
qed

lemma copy_loop_no_error:
  "int i \<le> k + int (length out) \<Longrightarrow> k + int i < int (length out) \<Longrightarrow>
   \<exists>ext. copy_loop k i n out = (None, out @ ext) \<and> length ext = n"
proof (induction n arbitrary: i out)
  case 0
  then show ?case by simp
next
  case (Suc n)
  from Suc.prems have "py_index out (k + int i) \<noteq> None"
    by (simp add: py_index_None)
  then obtain b where b: "py_index out (k + int i) = Some b" by blast
  have "\<exists>ext. copy_loop k (i + 1) n (out @ [b]) = (None, (out @ [b]) @ ext) \<and> length ext = n"
    using Suc.prems by (intro Suc.IH) auto
  then obtain ext where "copy_loop k (i + 1) n (out @ [b]) = (None, (out @ [b]) @ ext)"
    "length ext = n" by blast
  with b show ?case by (intro exI [of _ "b # ext"]) simp
qed

lemma copy_loop_fails_at_once:
  "int (length out) \<le> k \<or> k + int (length out) < 0 \<Longrightarrow>
   copy_loop k 0 (Suc n) out = (Some IndexError, out)"
proof -
  assume "int (length out) \<le> k \<or> k + int (length out) < 0"
  then have "py_index out (k + int 0) = None" by (simp add: py_index_None)
  then show ?thesis by simp
qed


lemma copy_command_result:
  "copy_command s = (Inr (len, off), s1) \<Longrightarrow>
   1 \<le> len \<and> uncompressed_data s1 = uncompressed_data s"
  by (auto simp: copy_command_def Let_def split: if_splits)

lemma uncompress_copy_loop:
  "copy_command s = (Inr (len, off), s1) \<Longrightarrow>
   copy_loop (int (length (uncompressed_data s)) - int off) 0 len (uncompressed_data s) = (e, out')
   \<Longrightarrow> uncompress_copy s = (e, s1\<lparr>uncompressed_data := out'\<rparr>)"
  using copy_command_result [of s len off s1] by (simp add: uncompress_copy_def)

lemma uncompress_copy_loop_conv:
  assumes "copy_command s = (Inr (len, off), s1)" and "uncompress_copy s = (e, s')"
  shows "s' = s1\<lparr>uncompressed_data := uncompressed_data s'\<rparr> \<and>
         copy_loop (int (length (uncompressed_data s)) - int off) 0 len (uncompressed_data s)
           = (e, uncompressed_data s')"
proof -
  obtain e2 out2 where
    l: "copy_loop (int (length (uncompressed_data s)) - int off) 0 len (uncompressed_data s)
          = (e2, out2)"
    by (cases "copy_loop (int (length (uncompressed_data s)) - int off) 0 len (uncompressed_data s)")
  from uncompress_copy_loop [OF assms(1) l] assms(2) have "e = e2" "s' = s1\<lparr>uncompressed_data := out2\<rparr>"
    by simp_all
  with l show ?thesis by simp
qed

lemma till_step:
  "index s < length (compressed_data s) \<Longrightarrow> int (length (uncompressed_data s)) < target \<Longrightarrow>
   uncompress_till s target =
     (case uncompress_step s of
        (Some e, s') \<Rightarrow> (Some e, s')
      | (None, s') \<Rightarrow> uncompress_till s' target)"
  by (subst uncompress_till.simps) simp

lemma till_stop:
  "\<not> (index s < length (compressed_data s) \<and> int (length (uncompressed_data s)) < target) \<Longrightarrow>
   uncompress_till s target = (None, s)"
proof -
  assume a: "\<not> (index s < length (compressed_data s) \<and> int (length (uncompressed_data s)) < target)"
  show ?thesis by (subst uncompress_till.simps) (simp only: a if_False)
qed

text \<open>
  Claim C4, as amended. Take an object whose next command is a copy (tag with low bits
  not \<open>00\<close>) that decodes to length \<open>len\<close> and offset \<open>off\<close>, with \<open>n\<close> bytes of output
  so far and more output requested. If \<open>off\<close> is 0 or greater than \<open>2 * n\<close>, decompression
  stops with IndexError before a byte is appended. If \<open>n < off \<le> 2 * n\<close>, the offset
  points before the start of the output and still nothing fails: \<open>len\<close> bytes are
  appended, because the negative index \<open>n - off + i\<close> counts from the end of the
  output.
\<close>

theorem copy_offset_out_of_range:
  assumes "index s < length (compressed_data s)"
    and "unat (compressed_data s ! index s) AND 0x3 \<noteq> 0"
    and "int (length (uncompressed_data s)) < target"
    and "copy_command s = (Inr (len, off), s1)"
  shows "(off = 0 \<or> 2 * length (uncompressed_data s) < off \<longrightarrow>
            uncompress_till s target = (Some IndexError, s1))
       \<and> (length (uncompressed_data s) < off \<and> off \<le> 2 * length (uncompressed_data s) \<longrightarrow>
            (\<exists>ext. uncompress_step s = (None, s1\<lparr>uncompressed_data := uncompressed_data s @ ext\<rparr>)
                   \<and> length ext = len))"
proof (intro conjI impI)
  let ?out = "uncompressed_data s"
  let ?k = "int (length ?out) - int off"
  from copy_command_result [OF assms(4)] obtain n where len: "len = Suc n"
    and out1: "uncompressed_data s1 = ?out"
    by (cases len) auto
  have step: "uncompress_step s = uncompress_copy s"
    using assms(2) by (simp add: uncompress_step_def)
  {
    assume "off = 0 \<or> 2 * length ?out < off"
    then have "int (length ?out) \<le> ?k \<or> ?k + int (length ?out) < 0" by auto
    then have "copy_loop ?k 0 len ?out = (Some IndexError, ?out)"
      unfolding len by (rule copy_loop_fails_at_once)
    from uncompress_copy_loop [OF assms(4) this]
    have "uncompress_copy s = (Some IndexError, s1)" using out1 by simp
    with step show "uncompress_till s target = (Some IndexError, s1)"
      using assms(1,3) by (simp add: till_step)
  }
  {
    assume "length ?out < off \<and> off \<le> 2 * length ?out"
    then have "int 0 \<le> ?k + int (length ?out)" "?k + int 0 < int (length ?out)" by auto
    from copy_loop_no_error [OF this, of len] obtain ext where
      "copy_loop ?k 0 len ?out = (None, ?out @ ext)" "length ext = len" by blast
    with uncompress_copy_loop [OF assms(4), of None "?out @ ext"] step
    show "\<exists>ext. uncompress_step s = (None, s1\<lparr>uncompressed_data := ?out @ ext\<rparr>)
                   \<and> length ext = len"
      by auto
  }
qed







lemma copy_loop_numeral:
  "copy_loop k i (numeral n) out =
     (case py_index out (k + int i) of
        None \<Rightarrow> (Some IndexError, out)
      | Some b \<Rightarrow> copy_loop k (i + 1) (pred_numeral n) (out @ [b]))"
  by (subst numeral_eq_Suc) simp

lemmas decompress_eval =
  SnappyDecompress_all_def SnappyDecompress_init_def read_varint_fix_def
  read_varint_fix_loop.simps getitem_slice_def slice_bound_def uncompress_till.simps
  uncompress_step_def uncompress_literal_def uncompress_copy_def copy_command_def Let_def
  py_index_def copy_loop_numeral

lemma ex_aaaa: "SnappyDecompress_all [4, 0, 0x61, 0x0A, 0x01, 0x00] 0 = Inr [0x61, 0x61, 0x61, 0x61]"
  by (simp add: decompress_eval)

lemma ex_wrap: "SnappyDecompress_all [6, 4, 0x61, 0x62, 0x01, 0x03] 0 = Inr [0x61, 0x62, 0x62, 0x61, 0x62, 0x62]"
  by (simp add: decompress_eval)




theorem copy_offset_out_of_range_witness:
  "uncompress_step \<lparr>compressed_data = [6, 4, 0x61, 0x62, 0x01, 0x03], uncompressed_data = [0x61, 0x62],
                    uncompressed_length = 6, index = 4\<rparr>
     = (None, \<lparr>compressed_data = [6, 4, 0x61, 0x62, 0x01, 0x03],
               uncompressed_data = [0x61, 0x62, 0x62, 0x61, 0x62, 0x62],
               uncompressed_length = 6, index = 6\<rparr>)
   \<and> uncompress_till \<lparr>compressed_data = [5, 0, 0x61, 0x01, 0x03], uncompressed_data = [0x61],
                    uncompressed_length = 5, index = 3\<rparr> 5
     = (Some IndexError, \<lparr>compressed_data = [5, 0, 0x61, 0x01, 0x03], uncompressed_data = [0x61],
                    uncompressed_length = 5, index = 5\<rparr>)"
proof -
  let ?s = "\<lparr>compressed_data = [6, 4, 0x61, 0x62, 0x01, 0x03], uncompressed_data = [0x61, 0x62],
             uncompressed_length = 6, index = 4\<rparr>"
  let ?t = "\<lparr>compressed_data = [5, 0, 0x61, 0x01, 0x03], uncompressed_data = [0x61 :: byte],
             uncompressed_length = 5, index = 3\<rparr>"
  have cs: "copy_command ?s = (Inr (4, 3), ?s\<lparr>index := 6\<rparr>)"
    by (simp add: copy_command_def Let_def)
  have ct: "copy_command ?t = (Inr (4, 3), ?t\<lparr>index := 5\<rparr>)"
    by (simp add: copy_command_def Let_def)
  have a: "uncompress_step ?s = (None, ?s\<lparr>uncompressed_data := [0x61, 0x62, 0x62, 0x61, 0x62, 0x62],
                                          index := 6\<rparr>)"
    using copy_offset_out_of_range [of ?s 6, OF _ _ _ cs] by (simp add: decompress_eval)
  have b: "uncompress_till ?t 5 = (Some IndexError, ?t\<lparr>index := 5\<rparr>)"
    using copy_offset_out_of_range [of ?t 5, OF _ _ _ ct] by simp
  from a b show ?thesis by simp
qed

text \<open>
  After the literal \<open>ab\<close>, a copy of length 4 with offset 3 points one byte before the
  start of the output; decompression succeeds with \<open>abbabb\<close>.
\<close>

theorem copy_offset_before_start_counterexample:
  "SnappyDecompress_all [6, 4, 0x61, 0x62, 0x01, 0x03] 0 = Inr [0x61, 0x62, 0x62, 0x61, 0x62, 0x62]"
  by (simp add: decompress_eval)

lemma grows_refl: "grows s s"
  by (simp add: grows_def)

lemma grows_trans: "grows a b \<Longrightarrow> grows b c \<Longrightarrow> grows a c"
proof -
  assume ab: "grows a b" and bc: "grows b c"
  let ?A = "uncompressed_data a" and ?B = "uncompressed_data b" and ?C = "uncompressed_data c"
  from ab bc have len: "length ?A \<le> length ?B" "length ?B \<le> length ?C"
    by (simp_all add: grows_def)
  have "take (length ?A) ?C = take (length ?A) (take (length ?B) ?C)"
    using len by (simp add: min_def)
  also have "\<dots> = ?A" using ab bc by (simp add: grows_def)
  finally show ?thesis using ab bc len by (simp add: grows_def)
qed

lemma grows_append:
  "uncompressed_data s' = uncompressed_data s @ ext \<Longrightarrow> index s \<le> index s' \<Longrightarrow>
   compressed_data s' = compressed_data s \<Longrightarrow> uncompressed_length s' = uncompressed_length s \<Longrightarrow>
   grows s s'"
  by (simp add: grows_def)

lemma uncompress_literal_grows: "uncompress_literal s = (e, s') \<Longrightarrow> grows s s'"
  by (auto simp: uncompress_literal_def Let_def grows_def split: if_splits prod.splits)

lemma copy_command_grows:
  "copy_command s = (r, s1) \<Longrightarrow>
   uncompressed_data s1 = uncompressed_data s \<and> index s \<le> index s1 \<and>
   compressed_data s1 = compressed_data s \<and> uncompressed_length s1 = uncompressed_length s"
  by (auto simp: copy_command_def Let_def split: if_splits)

lemma uncompress_copy_grows:
  assumes "uncompress_copy s = (e, s')"
  shows "grows s s'"
proof -
  obtain r s1 where c: "copy_command s = (r, s1)" by (cases "copy_command s")
  note g = copy_command_grows [OF c]
  show ?thesis
  proof (cases r)
    case (Inl err)
    with c assms have "s' = s1" by (simp add: uncompress_copy_def)
    with g show ?thesis by (simp add: grows_def)
  next
    case (Inr lo)
    obtain len off where lo: "lo = (len, off)" by (cases lo)
    from uncompress_copy_loop_conv [OF c [unfolded Inr lo] assms]
    have s': "s' = s1\<lparr>uncompressed_data := uncompressed_data s'\<rparr>"
      and loop: "copy_loop (int (length (uncompressed_data s)) - int off) 0 len (uncompressed_data s)
                 = (e, uncompressed_data s')" by simp_all
    from copy_loop_prefix [OF loop] obtain ext where
      ext: "uncompressed_data s' = uncompressed_data s @ ext" by blast
    have "index s' = index s1" "compressed_data s' = compressed_data s1"
      "uncompressed_length s' = uncompressed_length s1"
      by (subst s', simp)+
    with g ext show ?thesis by (intro grows_append [of s' s ext]) simp_all
  qed
qed

lemma uncompress_step_grows: "uncompress_step s = (e, s') \<Longrightarrow> grows s s'"
  using uncompress_literal_grows [of s e s'] uncompress_copy_grows [of s e s']
  by (simp add: uncompress_step_def Let_def split: if_splits)

lemma uncompress_till_grows: "uncompress_till s target = (e, s') \<Longrightarrow> grows s s'"
proof (induction s target arbitrary: e s' rule: uncompress_till.induct)
  case (1 s target)
  show ?case
  proof (cases "index s < length (compressed_data s) \<and> int (length (uncompressed_data s)) < target")
    case False
    then have "uncompress_till s target = (None, s)" by (rule till_stop)
    with "1.prems" show ?thesis by (simp add: grows_refl)
  next
    case True
    obtain e1 s1 where st: "uncompress_step s = (e1, s1)" by (cases "uncompress_step s")
    then have g: "grows s s1" by (rule uncompress_step_grows)
    show ?thesis
    proof (cases e1)
      case None
      with True st "1.prems" have "uncompress_till s1 target = (e, s')"
        by (simp add: till_step)
      from "1.IH" [OF True st [symmetric] None this] g show ?thesis
        by (rule grows_trans [rotated])
    next
      case (Some err)
      with True st "1.prems" have "s' = s1" by (simp add: till_step)
      with g show ?thesis by simp
    qed
  qed
qed

lemma request_state_grows: "grows s (request_state s r)"
proof (cases r)
  case (Item i)
  obtain e s' where t: "uncompress_till s i = (e, s')" by (cases "uncompress_till s i")
  then have "request_state s r = s'"
    using Item by (cases e) (simp_all add: request_state_def getitem_int_def)
  with uncompress_till_grows [OF t] show ?thesis by simp
next
  case (Slice a b)
  let ?tg = "int (max (slice_bound a 0 (uncompressed_length s))
                    (slice_bound b (uncompressed_length s) (uncompressed_length s)))"
  obtain e s' where t: "uncompress_till s ?tg = (e, s')" by (cases "uncompress_till s ?tg")
  then have "request_state s r = s'"
    using Slice by (cases e) (simp_all add: request_state_def getitem_slice_def Let_def)
  with uncompress_till_grows [OF t] show ?thesis by simp
qed

lemma requests_grows: "grows s (requests s rs)"
proof (induction rs arbitrary: s)
  case Nil
  then show ?case by (simp add: requests_def grows_refl)
next
  case (Cons r rs)
  have "requests s (r # rs) = requests (request_state s r) rs" by (simp add: requests_def)
  with request_state_grows [of s r] Cons [of "request_state s r"] show ?case
    by (auto intro: grows_trans)
qed

lemma requests_append: "requests s (rs1 @ rs2) = requests (requests s rs1) rs2"
  by (simp add: requests_def)

lemma slice_bound_le: "slice_bound b dflt n \<le> max dflt n"
  by (auto simp: slice_bound_def split: option.splits)

lemma slice_at_declared_length:
  assumes "uncompressed_length s \<le> length (uncompressed_data s)"
  shows "request_state s (Slice a b) = s"
proof -
  let ?n = "uncompressed_length s"
  have "slice_bound a 0 ?n \<le> ?n" "slice_bound b ?n ?n \<le> ?n"
    using slice_bound_le [of a 0 ?n] slice_bound_le [of b ?n ?n] by simp_all
  then have "max (slice_bound a 0 ?n) (slice_bound b ?n ?n) \<le> length (uncompressed_data s)"
    using assms by simp
  then have "\<not> int (length (uncompressed_data s))
               < int (max (slice_bound a 0 ?n) (slice_bound b ?n ?n))"
    by linarith
  then have "uncompress_till s (int (max (slice_bound a 0 ?n) (slice_bound b ?n ?n))) = (None, s)"
    by (intro till_stop) blast
  then show ?thesis by (simp add: request_state_def getitem_slice_def Let_def)
qed

text \<open>
  Claim C6, as amended. Across any sequence of element and slice requests, whether they
  raise or not, the output only grows by appending, the read position never moves
  back, and the compressed data and the declared length stay as they are. A slice
  request decodes nothing once the output has reached the declared length. The output
  itself is not bounded by the declared length.
\<close>

theorem requests_only_grow:
  "grows (requests s rs1) (requests s (rs1 @ rs2))
   \<and> compressed_data (requests s rs1) = compressed_data s
   \<and> uncompressed_length (requests s rs1) = uncompressed_length s
   \<and> (uncompressed_length s \<le> length (uncompressed_data s) \<longrightarrow>
        request_state s (Slice a b) = s)"
proof (intro conjI impI)
  show "grows (requests s rs1) (requests s (rs1 @ rs2))"
    unfolding requests_append by (rule requests_grows)
  from requests_grows [of s rs1]
  show "compressed_data (requests s rs1) = compressed_data s"
    and "uncompressed_length (requests s rs1) = uncompressed_length s"
    by (simp_all add: grows_def)
next
  assume "uncompressed_length s \<le> length (uncompressed_data s)"
  then show "request_state s (Slice a b) = s" by (rule slice_at_declared_length)
qed

theorem requests_only_grow_witness:
  "uncompressed_length \<lparr>compressed_data = [1, 0, 0x61], uncompressed_data = [0x61],
                        uncompressed_length = 1, index = 3\<rparr>
     \<le> length (uncompressed_data \<lparr>compressed_data = [1, 0, 0x61], uncompressed_data = [0x61],
                        uncompressed_length = 1, index = 3\<rparr>)
   \<and> request_state \<lparr>compressed_data = [1, 0, 0x61], uncompressed_data = [0x61],
                     uncompressed_length = 1, index = 3\<rparr> (Slice None None)
     = \<lparr>compressed_data = [1, 0, 0x61], uncompressed_data = [0x61],
        uncompressed_length = 1, index = 3\<rparr>"
  using requests_only_grow [of "\<lparr>compressed_data = [1, 0, 0x61], uncompressed_data = [0x61],
                     uncompressed_length = 1, index = 3\<rparr>" "[]" "[]" None None]
  by simp

text \<open>
  A header declaring 1 byte followed by a literal of 2 bytes: after the request \<open>[:]\<close> the
  output buffer holds 2 bytes.
\<close>

theorem output_exceeds_declared_length_counterexample:
  "SnappyDecompress_init [1, 4, 0x61, 0x62] 0
     = Inr \<lparr>compressed_data = [1, 4, 0x61, 0x62], uncompressed_data = [],
            uncompressed_length = 1, index = 1\<rparr>
   \<and> requests \<lparr>compressed_data = [1, 4, 0x61, 0x62], uncompressed_data = [],
               uncompressed_length = 1, index = 1\<rparr> [Slice None None]
     = \<lparr>compressed_data = [1, 4, 0x61, 0x62], uncompressed_data = [0x61, 0x62],
        uncompressed_length = 1, index = 4\<rparr>"
  by (simp add: decompress_eval requests_def request_state_def)

section \<open>The schema combinators\<close>

lemma bnd_Inr [simp]: "bnd (Inr a) f = f a"
  by (simp add: bnd_def)

lemma bnd_Inl [simp]: "bnd (Inl e) f = Inl e"
  by (simp add: bnd_def)

lemma bnd_eq_Inr: "bnd m f = Inr r \<longleftrightarrow> (\<exists>a. m = Inr a \<and> f a = Inr r)"
  by (cases m) simp_all

lemma seq_loop_numeral:
  "seq_loop f data i (numeral n) out =
     (case f data i of
        Inl e \<Rightarrow> Inl e
      | Inr (e, i') \<Rightarrow> seq_loop f data i' (pred_numeral n) (out @ [e]))"
  by (subst numeral_eq_Suc) simp

text \<open>
  Claim C10. Once the length codec has returned the count \<open>len\<close>, \<open>seq\<close> compares it
  with the length of the whole buffer, not with what is left after the offset. A count
  at or above that length raises AssertionError whatever the element parser is, so no
  element is read. A count below it passes the guard: the result is that of the element
  loop, also when the bytes left cannot hold that many elements.
\<close>

theorem seq_length_guard:
  assumes "l data i = Inr (len, i1)"
  shows "(int (length data) \<le> len \<longrightarrow> seq f l data i = Inl AssertionError)
       \<and> (len < int (length data) \<longrightarrow> seq f l data i = seq_loop f data i1 (nat len) [])"
  using assms by (simp add: seq_def)

theorem seq_length_guard_witness:
  "U 2 [3, 0, 7] 0 = Inr (3, 2) \<and> int (length [3, 0, 7 :: byte]) \<le> 3
   \<and> seq (U 8) (U 2) [3, 0, 7] 0 = Inl AssertionError
   \<and> U 2 [2, 0, 7] 0 = Inr (2, 2) \<and> 2 < int (length [2, 0, 7 :: byte])
   \<and> seq (U 8) (U 2) [2, 0, 7] 0 = Inr ([7, 0], 18)"
proof -
  have a: "U 2 [3, 0, 7] 0 = Inr (3, 2)" and b: "U 2 [2, 0, 7] 0 = Inr (2, 2)"
    by (simp_all add: U_def py_slice_def int_from_bytes_def)
  have "seq (U 8) (U 2) [3, 0, 7] 0 = Inl AssertionError"
    using seq_length_guard [of "U 2" "[3, 0, 7]" 0 3 2 "U 8"] a by simp
  moreover have "seq (U 8) (U 2) [2, 0, 7] 0 = Inr ([7, 0], 18)"
    using seq_length_guard [of "U 2" "[2, 0, 7]" 0 2 2 "U 8"] b
    by (simp add: seq_loop_numeral U_def py_slice_def int_from_bytes_def)
  ultimately show ?thesis using a b by simp
qed

section \<open>The field patcher\<close>

lemma filter_enumerate_snd:
  "map snd (filter (\<lambda>(k, c). P c) (enumerate n xs)) = filter P xs"
  by (induction xs arbitrary: n) auto

lemma filter_enumerate_none:
  "\<forall>x\<in>set xs. \<not> P x \<Longrightarrow> filter (\<lambda>(k, c). P c) (enumerate n xs) = []"
  by (induction xs arbitrary: n) auto

lemma filter_two_decompose:
  assumes "filter P xs = [a, b]"
  shows "\<exists>us vs ws. xs = us @ a # vs @ b # ws \<and> (\<forall>x\<in>set us. \<not> P x) \<and>
           (\<forall>x\<in>set vs. \<not> P x) \<and> (\<forall>x\<in>set ws. \<not> P x) \<and> P a \<and> P b"
proof -
  from filter_eq_ConsD [OF assms] obtain us r where
    1: "xs = us @ a # r" "\<forall>x\<in>set us. \<not> P x" "P a" "[b] = filter P r"
    by blast
  from filter_eq_ConsD [OF 1(4) [symmetric]] obtain vs ws where
    2: "r = vs @ b # ws" "\<forall>x\<in>set vs. \<not> P x" "P b" "[] = filter P ws"
    by blast
  from 2(4) have "\<forall>x\<in>set ws. \<not> P x" by (simp add: filter_empty_conv [symmetric] eq_commute)
  with 1 2 show ?thesis by blast
qed

lemma filter_enumerate_two:
  assumes "\<forall>x\<in>set us. \<not> P x" "\<forall>x\<in>set vs. \<not> P x" "\<forall>x\<in>set ws. \<not> P x" "P a" "P b"
  shows "filter (\<lambda>(k, c). P c) (enumerate 0 (us @ a # vs @ b # ws)) =
           [(length us, a), (length us + 1 + length vs, b)]"
  using assms by (simp add: enumerate_append_eq filter_enumerate_none)

lemma fix_rams_decomposed:
  assumes comps: "s_components res = us @ a # vs @ b # ws"
    and no: "\<forall>x\<in>set us. c_component_kind x \<noteq> 118" "\<forall>x\<in>set vs. c_component_kind x \<noteq> 118"
            "\<forall>x\<in>set ws. c_component_kind x \<noteq> 118"
    and ram: "c_component_kind a = 118" "c_component_kind b = 118"
    and sizes: "(c_buffer_size a = 256 \<and> c_buffer_size b = 65536) \<or>
                (c_buffer_size a = 65536 \<and> c_buffer_size b = 256)"
  shows "fix_rams res =
           Inr (res\<lparr>s_components := us @ vs @ ws @
                  [(if c_buffer_size a = 256 then a else b)\<lparr>c_word_size := 16\<rparr>,
                   (if c_buffer_size a = 256 then b else a)\<lparr>c_word_size := 32\<rparr>]\<rparr>)"
proof -
  let ?P = "\<lambda>c. c_component_kind c = 118"
  have rc: "filter (\<lambda>(k, c). ?P c) (enumerate 0 (us @ a # vs @ b # ws)) =
              [(length us, a), (length us + 1 + length vs, b)]"
    using no ram by (intro filter_enumerate_two) auto
  from sizes show ?thesis
  proof
    assume s: "c_buffer_size a = 256 \<and> c_buffer_size b = 65536"
    let ?a = "a\<lparr>c_word_size := 16\<rparr>" and ?b = "b\<lparr>c_word_size := 32\<rparr>"
    have u1: "(us @ a # vs @ b # ws)[length us := ?a] = us @ ?a # vs @ b # ws"
      by (simp add: list_update_append)
    have u2: "(us @ ?a # vs @ b # ws)[Suc (length us + length vs) := ?b] = us @ ?a # vs @ ?b # ws"
      by (simp add: list_update_append)
    have na: "?a \<notin> set us" "?b \<notin> set us" "?b \<notin> set vs" using no ram by auto
    have ne: "?b \<noteq> ?a" using s by (auto dest: arg_cong [where f = c_buffer_size])
    have r1: "remove1 ?a (us @ ?a # vs @ ?b # ws) = us @ vs @ ?b # ws"
      using na by (simp add: remove1_append)
    have r2: "remove1 ?b (us @ vs @ ?b # ws) = us @ vs @ ws"
      using na by (simp add: remove1_append)
    show ?thesis
      using s by (simp add: fix_rams_def rc Let_def comps u1 u2 r1 r2 del: list_update.simps
                     remove1.simps)
  next
    assume s: "c_buffer_size a = 65536 \<and> c_buffer_size b = 256"
    let ?a = "a\<lparr>c_word_size := 32\<rparr>" and ?b = "b\<lparr>c_word_size := 16\<rparr>"
    have u1: "(us @ a # vs @ b # ws)[Suc (length us + length vs) := ?b] = us @ a # vs @ ?b # ws"
      by (simp add: list_update_append)
    have u2: "(us @ a # vs @ ?b # ws)[length us := ?a] = us @ ?a # vs @ ?b # ws"
      by (simp add: list_update_append)
    have na: "?b \<notin> set us" "?b \<notin> set vs" "?a \<notin> set us" using no ram by auto
    have ne: "?b \<noteq> ?a" using s by (auto dest: arg_cong [where f = c_buffer_size])
    have r1: "remove1 ?b (us @ ?a # vs @ ?b # ws) = us @ ?a # vs @ ws"
      using na ne by (simp add: remove1_append)
    have r2: "remove1 ?a (us @ ?a # vs @ ws) = us @ vs @ ws"
      using na by (simp add: remove1_append)
    show ?thesis
      using s by (simp add: fix_rams_def rc Let_def comps u1 u2 r1 r2 del: list_update.simps
                     remove1.simps)
  qed
qed

lemma filter_not_decomposed:
  assumes "\<forall>x\<in>set us. \<not> P x" "\<forall>x\<in>set vs. \<not> P x" "\<forall>x\<in>set ws. \<not> P x" "P a" "P b"
  shows "filter (\<lambda>c. \<not> P c) (us @ a # vs @ b # ws) = us @ vs @ ws"
  using assms by (simp add: filter_id_conv)

text \<open>The patched tree, on the component list itself.\<close>

lemma fix_rams_result:
  assumes "filter (\<lambda>c. c_component_kind c = 118) (s_components res) = [a, b]"
    and "(c_buffer_size a = 256 \<and> c_buffer_size b = 65536) \<or>
         (c_buffer_size a = 65536 \<and> c_buffer_size b = 256)"
  shows "fix_rams res =
           Inr (res\<lparr>s_components :=
                  filter (\<lambda>c. c_component_kind c \<noteq> 118) (s_components res) @
                  [(if c_buffer_size a = 256 then a else b)\<lparr>c_word_size := 16\<rparr>,
                   (if c_buffer_size a = 256 then b else a)\<lparr>c_word_size := 32\<rparr>]\<rparr>)"
proof -
  from filter_two_decompose [OF assms(1)] obtain us vs ws where
    d: "s_components res = us @ a # vs @ b # ws"
    and no: "\<forall>x\<in>set us. c_component_kind x \<noteq> 118" "\<forall>x\<in>set vs. c_component_kind x \<noteq> 118"
            "\<forall>x\<in>set ws. c_component_kind x \<noteq> 118"
    and ram: "c_component_kind a = 118" "c_component_kind b = 118"
    by blast
  have "filter (\<lambda>c. c_component_kind c \<noteq> 118) (us @ a # vs @ b # ws) = us @ vs @ ws"
    using no ram by (intro filter_not_decomposed [of us "\<lambda>c. c_component_kind c = 118"]) auto
  with fix_rams_decomposed [OF d no ram assms(2)] d show ?thesis by simp
qed

lemma fix_rams_count:
  assumes "length (filter (\<lambda>c. c_component_kind c = 118) (s_components res)) \<noteq> 2"
  shows "fix_rams res = Inl ValueError"
proof -
  let ?rc = "filter (\<lambda>(k, comp). c_component_kind comp = 118) (enumerate 0 (s_components res))"
  have "length ?rc = length (filter (\<lambda>c. c_component_kind c = 118) (s_components res))"
    using filter_enumerate_snd [of "\<lambda>c. c_component_kind c = 118" 0 "s_components res"]
    by (metis length_map)
  with assms have "length ?rc \<noteq> 2" by simp
  then have "(case ?rc of [a, b] \<Rightarrow> f a b | _ \<Rightarrow> Inl ValueError) = Inl ValueError" for f
    by (auto split: list.splits)
  then show ?thesis by (simp add: fix_rams_def Let_def)
qed

lemma fix_rams_sizes:
  assumes "filter (\<lambda>c. c_component_kind c = 118) (s_components res) = [a, b]"
    and "\<not> ((c_buffer_size a = 256 \<and> c_buffer_size b = 65536) \<or>
            (c_buffer_size a = 65536 \<and> c_buffer_size b = 256))"
  shows "fix_rams res = Inl ValueError"
proof -
  let ?rc = "filter (\<lambda>(k, comp). c_component_kind comp = 118) (enumerate 0 (s_components res))"
  have "map snd ?rc = [a, b]"
    using filter_enumerate_snd [of "\<lambda>c. c_component_kind c = 118" 0 "s_components res"] assms(1)
    by simp
  then obtain ka kb where rc: "?rc = [(ka, a), (kb, b)]"
    by (auto simp: map_eq_Cons_conv)
  show ?thesis
    using assms(2) by (auto simp: fix_rams_def Let_def rc)
qed

text \<open>
  Claim C7. For a file that starts with the version byte 10, decompresses and parses, if
  the parsed schematic does not have exactly two components of kind 118, or has two
  whose buffer sizes are not 256 and 65536, the patch raises ValueError and \<open>main\<close>
  ends with that error on an unchanged file system: no backup is made and nothing is
  written.
\<close>

theorem main_unexpected_shape:
  assumes "fs path = Some content" and "content \<noteq> []" and "content ! 0 = 10"
    and "SnappyDecompress_all content 1 = Inr dc"
    and "Schematic_parse dc 0 = Inr (res, j)"
    and "length (filter (\<lambda>c. c_component_kind c = 118) (s_components res)) \<noteq> 2 \<or>
         (\<exists>a b. filter (\<lambda>c. c_component_kind c = 118) (s_components res) = [a, b] \<and>
            \<not> ((c_buffer_size a = 256 \<and> c_buffer_size b = 65536) \<or>
               (c_buffer_size a = 65536 \<and> c_buffer_size b = 256)))"
  shows "fix_rams res = Inl ValueError \<and> main fs path = (Some ValueError, fs)"
proof -
  from assms(6) have f: "fix_rams res = Inl ValueError"
    using fix_rams_count [of res] fix_rams_sizes [of res] by blast
  with assms(1-5) show ?thesis by (simp add: main_def bnd_def)
qed

lemma py_slice_replicate: "py_slice (replicate n x) a b = replicate (min b n - a) x"
  by (simp add: py_slice_def min_def)

lemma from_bytes_le_zeros: "from_bytes_le (replicate n 0) = 0"
  by (induction n) auto

lemma int_from_bytes_zeros: "int_from_bytes (replicate n 0) sg = 0"
  by (simp add: int_from_bytes_def from_bytes_le_zeros)

lemmas parse_eval =
  Schematic_parse_def Schematic_head_def Component_parse_def Point_parse_def
  LinkedComponent_parse_def CustomCompData_parse_def U_def S_def seq_def string_def
  remainder_def pair_def py_slice_replicate int_from_bytes_zeros

lemma parse_zeros:
  "Schematic_parse (replicate 60 0) 0 =
     Inr (\<lparr>s_raw = replicate 60 0, s_custom_id = 0, s_hub_id = 0, s_gate = 0, s_delay = 0,
           s_menu_visible = 0, s_clock_speed = 0, s_dependencies = [], s_description = [],
           s_camera_position = \<lparr>p_raw = replicate 4 0, p_x = 0, p_y = 0\<rparr>, s_synced = 0,
           s_dummy = 0, s_player_data = [], s_hub_description = [], s_components = [],
           s_wires = []\<rparr>, 60)"
  by (simp add: parse_eval)

lemma decompress_zeros:
  "SnappyDecompress_all (10 # 60 # 236 # replicate 60 0) 1 = Inr (replicate 60 0)"
  by (simp add: decompress_eval)

theorem main_unexpected_shape_witness:
  "[''f'' \<mapsto> 10 # 60 # 236 # replicate 60 0] ''f'' = Some (10 # 60 # 236 # replicate 60 0)
   \<and> (10 # 60 # 236 # replicate 60 (0 :: byte)) ! 0 = 10
   \<and> SnappyDecompress_all (10 # 60 # 236 # replicate 60 0) 1 = Inr (replicate 60 0)
   \<and> Schematic_parse (replicate 60 0) 0 =
       Inr (blank_schematic\<lparr>s_raw := replicate 60 0,
              s_camera_position := \<lparr>p_raw = replicate 4 0, p_x = 0, p_y = 0\<rparr>\<rparr>, 60)
   \<and> length (filter (\<lambda>c. c_component_kind c = 118) []) \<noteq> 2
   \<and> main [''f'' \<mapsto> 10 # 60 # 236 # replicate 60 0] ''f''
       = (Some ValueError, [''f'' \<mapsto> 10 # 60 # 236 # replicate 60 0])"
  using main_unexpected_shape [of "[''f'' \<mapsto> 10 # 60 # 236 # replicate 60 0]" "''f''"
      "10 # 60 # 236 # replicate 60 0" "replicate 60 0"
      "blank_schematic\<lparr>s_raw := replicate 60 0,
              s_camera_position := \<lparr>p_raw = replicate 4 0, p_x = 0, p_y = 0\<rparr>\<rparr>" 60]
    parse_zeros decompress_zeros
  by simp

section \<open>The dependency closure\<close>

lemma dependencies_loop_numeral:
  "dependencies_loop content i j (numeral n) acc =
     (case getitem_slice content (Some (int (i + j * 8))) (Some (int (i + (j + 1) * 8))) of
        (Inl e, c) \<Rightarrow> (Inl e, c)
      | (Inr b, c) \<Rightarrow> dependencies_loop c i (j + 1) (pred_numeral n) (acc @ [from_bytes_le b]))"
  by (subst numeral_eq_Suc) simp

lemmas collect_eval =
  collect_files_def scan_component_factory_def SnappyDecompress_init_arch_def
  read_varint_arch_def read_varint_arch_loop.simps get_sch_id_def sbnd_def extract_info_def
  dependencies_loop_numeral collect_loop.simps getitem_slice_def slice_bound_def
  uncompress_till.simps uncompress_step_def uncompress_literal_def uncompress_copy_def
  copy_command_def Let_def py_index_def copy_loop_numeral from_bytes_le_zeros

text \<open>The check that the loop makes on the dependency list of every definition it visits.\<close>

lemma collect_loop_zero_in_definition:
  assumes "queue \<noteq> []" and "last queue \<notin> set to_extract"
    and "map_of ccs (last queue) = Some (cc_name, path, v, dc)"
    and "fst (extract_info v dc) = Inr (schematic_id, gate_delay, dependencies)"
    and "0 \<in> set dependencies"
  shows "collect_loop ccs queue to_extract = Inl AssertionError"
  using assms by (subst collect_loop.simps) simp

text \<open>
  Claim C8, at an input where the code departs from it. The target schematic (version
  10, all fields zero) lists the single dependency id 0. With a component factory
  holding one definition whose id is 0 and whose dependency list is empty, resolution
  succeeds and the definition is part of the output; with an empty component factory
  it ends with the ValueError of a missing component. In neither case is the 0 in the
  target's own list taken as corruption: only the lists of visited definitions are
  checked.
\<close>

theorem collect_files_zero_dependency:
  "collect_files ''a'' ''m''
     (Some ([10, 47, 184] @ replicate 37 0 @ [1, 0] @ replicate 8 0))
     [(''cc'', ''p'', [10, 39, 152] @ replicate 39 0)]
   = Inr ([''a'' \<mapsto> ''m'', ''cc'' \<mapsto> ''p''], 0, 0)
   \<and> collect_files ''a'' ''m''
     (Some ([10, 47, 184] @ replicate 37 0 @ [1, 0] @ replicate 8 0)) []
   = Inl ValueError"
  by (simp add: collect_eval)

section \<open>Round trip of the schema codecs\<close>

lemma py_slice_append: "a \<le> b \<Longrightarrow> b \<le> c \<Longrightarrow> py_slice data a b @ py_slice data b c = py_slice data a c"
proof -
  assume ab: "a \<le> b" and bc: "b \<le> c"
  have "take (c - a) (drop a data) = take ((b - a) + (c - b)) (drop a data)"
    using ab bc by simp
  also have "\<dots> = take (b - a) (drop a data) @ take (c - b) (drop (b - a) (drop a data))"
    by (rule take_add)
  also have "drop (b - a) (drop a data) = drop b data"
    using ab by simp
  finally show ?thesis by (simp add: py_slice_def)
qed

lemma length_slice: "a \<le> b \<Longrightarrow> b \<le> length data \<Longrightarrow> length (py_slice data a b) = b - a"
  by (simp add: py_slice_def)

lemma py_slice_empty [simp]: "py_slice data a a = []"
  by (simp add: py_slice_def)

lemma py_slice_all: "py_slice data 0 (length data) = data"
  by (simp add: py_slice_def)

lemma py_slice_drop: "i \<le> length data \<Longrightarrow> py_slice data i (length data) = drop i data"
  by (simp add: py_slice_def)

lemma exactI:
  "(\<And>i v j. p data i = Inr (v, j) \<Longrightarrow> i \<le> j) \<Longrightarrow>
   (\<And>i v j. p data i = Inr (v, j) \<Longrightarrow> j \<le> length data \<Longrightarrow> u v = Inr (py_slice data i j)) \<Longrightarrow>
   exact p u data"
  by (simp add: exact_def)

lemma exact_mono: "exact p u data \<Longrightarrow> p data i = Inr (v, j) \<Longrightarrow> i \<le> j"
  by (simp add: exact_def)

lemma exact_unparse:
  "exact p u data \<Longrightarrow> p data i = Inr (v, j) \<Longrightarrow> j \<le> length data \<Longrightarrow> u v = Inr (py_slice data i j)"
  by (simp add: exact_def)

lemma pow256: "(256::nat) ^ n = 2 ^ (8 * n)"
  by (simp add: power_mult)

lemma exact_U: "exact (U n) (U_unparse n) data"
proof (rule exactI)
  fix i v j
  assume "U n data i = Inr (v, j)"
  then show "i \<le> j" by (auto simp: U_def)
next
  fix i v j
  assume p: "U n data i = Inr (v, j)" and j: "j \<le> length data"
  let ?bs = "py_slice data i j"
  from p have jn: "j = i + n" and v: "v = int (from_bytes_le ?bs)"
    by (auto simp: U_def int_from_bytes_def)
  from jn j have len: "length ?bs = n" by (simp add: length_slice)
  have "from_bytes_le ?bs < 256 ^ n" using from_bytes_le_less [of ?bs] len by simp
  then have lt: "v < 2 ^ (8 * n)" unfolding v pow256 by (metis of_nat_less_iff of_nat_numeral of_nat_power)
  have ge: "0 \<le> v" unfolding v by simp
  have "n = 0 \<Longrightarrow> v = 0" using lt ge by simp
  then have rep: "representable v n False" using lt ge by (auto simp: representable_def)
  have "nat (v mod 2 ^ (8 * n)) = from_bytes_le ?bs" using lt ge by (simp add: v)
  then have "le_bytes n (nat (v mod 2 ^ (8 * n))) = ?bs"
    using le_bytes_from_bytes_le [of ?bs] len by simp
  with rep show "U_unparse n v = Inr ?bs" by (simp add: U_unparse_def int_to_bytes_def)
qed

lemma exact_S: "exact (S n) (S_unparse n) data"
proof (rule exactI)
  fix i v j
  assume "S n data i = Inr (v, j)"
  then show "i \<le> j" by (auto simp: S_def)
next
  fix i v j
  assume p: "S n data i = Inr (v, j)" and j: "j \<le> length data"
  let ?bs = "py_slice data i j"
  let ?u = "int (from_bytes_le ?bs)"
  from p have jn: "j = i + n" and v: "v = int_from_bytes ?bs True"
    by (auto simp: S_def)
  from jn j have len: "length ?bs = n" by (simp add: length_slice)
  have "from_bytes_le ?bs < 256 ^ n" using from_bytes_le_less [of ?bs] len by simp
  then have lt: "?u < 2 ^ (8 * n)" unfolding pow256 by (metis of_nat_less_iff of_nat_numeral of_nat_power)
  have ge: "0 \<le> ?u" by simp
  have "representable v n True \<and> nat (v mod 2 ^ (8 * n)) = from_bytes_le ?bs"
  proof (cases "n = 0")
    case True
    with len show ?thesis by (simp add: v int_from_bytes_def representable_def)
  next
    case False
    then have ne: "?bs \<noteq> []" using len by auto
    from False have half: "(2::int) ^ (8 * n) = 2 * 2 ^ (8 * n - 1)"
      by (metis Suc_pred' mult_pos_pos power_Suc zero_less_numeral neq0_conv)
    show ?thesis
    proof (cases "2 ^ (8 * n - 1) \<le> ?u")
      case True
      with ne len have vv: "v = ?u - 2 ^ (8 * n)" by (simp add: v int_from_bytes_def)
      have "v mod 2 ^ (8 * n) = (v + 2 ^ (8 * n)) mod 2 ^ (8 * n)" by simp
      also have "\<dots> = ?u" using vv lt ge by simp
      finally have "nat (v mod 2 ^ (8 * n)) = from_bytes_le ?bs" by simp
      moreover have "representable v n True"
        using False True lt vv half by (simp add: representable_def)
      ultimately show ?thesis by simp
    next
      case notle: False
      with ne len have vv: "v = ?u" by (simp add: v int_from_bytes_def)
      have "nat (v mod 2 ^ (8 * n)) = from_bytes_le ?bs" using vv lt by simp
      moreover have "representable v n True"
      proof -
        have "(0::int) < 2 ^ (8 * n - 1)" by simp
        with notle ge vv have "- (2 ^ (8 * n - 1)) \<le> v \<and> v < 2 ^ (8 * n - 1)" by linarith
        with False show ?thesis by (simp add: representable_def)
      qed
      ultimately show ?thesis by simp
    qed
  qed
  moreover have "le_bytes n (from_bytes_le ?bs) = ?bs"
    using le_bytes_from_bytes_le [of ?bs] len by simp
  ultimately show "S_unparse n v = Inr ?bs" by (simp add: S_unparse_def int_to_bytes_def)
qed

subsection \<open>UTF-8\<close>

lemma enc1: "unat b0 < 0x80 \<Longrightarrow> utf8_encode_cp (unat b0) = Inr [b0]"
  by (simp add: utf8_encode_cp_def)

lemma enc2:
  assumes "0xC2 \<le> unat b0" "unat b0 \<le> 0xDF" "cont b1"
  shows "utf8_encode_cp ((unat b0 - 0xC0) * 64 + (unat b1 - 0x80)) = Inr [b0, b1]"
proof -
  define a b where "a = unat b0 - 0xC0" and "b = unat b1 - 0x80"
  from assms have r: "2 \<le> a" "a \<le> 31" "b \<le> 63" "unat b0 = 0xC0 + a" "unat b1 = 0x80 + b"
    by (auto simp: a_def b_def cont_def)
  have b0: "word_of_nat (0xC0 + a) = b0" unfolding r(4) [symmetric] by simp
  have b1: "word_of_nat (0x80 + b) = b1" unfolding r(5) [symmetric] by simp
  have d: "(a * 64 + b) div 64 = a" "(a * 64 + b) mod 64 = b" using r by simp_all
  have "128 \<le> a * 64 + b" "a * 64 + b < 2048" using r by simp_all
  then show ?thesis
    unfolding a_def [symmetric] b_def [symmetric] utf8_encode_cp_def d b0 b1 by simp
qed

lemma base64_2:
  fixes a b :: nat
  assumes "b < 64"
  shows "(a * 64 + b) div 64 = a" and "(a * 64 + b) mod 64 = b"
  using assms by simp_all

lemma base64_3:
  fixes a b c :: nat
  assumes "b \<le> 63" and "c \<le> 63"
  shows "(a * 4096 + b * 64 + c) div 4096 = a"
    and "(a * 4096 + b * 64 + c) div 64 mod 64 = b"
    and "(a * 4096 + b * 64 + c) mod 64 = c"
proof -
  have e: "a * 4096 + b * 64 + c = (a * 64 + b) * 64 + c" by simp
  have c: "c < 64" and b: "b < 64" using assms by simp_all
  have d1: "(a * 4096 + b * 64 + c) div 64 = a * 64 + b"
    unfolding e using c by (rule base64_2)
  show "(a * 4096 + b * 64 + c) mod 64 = c"
    unfolding e using c by (rule base64_2)
  show "(a * 4096 + b * 64 + c) div 64 mod 64 = b"
    unfolding d1 using b by (rule base64_2)
  have "(a * 4096 + b * 64 + c) div 4096 = (a * 4096 + b * 64 + c) div 64 div 64"
    by (simp add: div_mult2_eq [symmetric])
  also have "\<dots> = a" unfolding d1 using b by (rule base64_2)
  finally show "(a * 4096 + b * 64 + c) div 4096 = a" .
qed

lemma base64_4:
  fixes a b c d :: nat
  assumes "b \<le> 63" and "c \<le> 63" and "d \<le> 63"
  shows "(a * 262144 + b * 4096 + c * 64 + d) div 262144 = a"
    and "(a * 262144 + b * 4096 + c * 64 + d) div 4096 mod 64 = b"
    and "(a * 262144 + b * 4096 + c * 64 + d) div 64 mod 64 = c"
    and "(a * 262144 + b * 4096 + c * 64 + d) mod 64 = d"
proof -
  let ?n = "a * 262144 + b * 4096 + c * 64 + d"
  have e: "?n = (a * 4096 + b * 64 + c) * 64 + d" by simp
  have d: "d < 64" using assms by simp
  have d1: "?n div 64 = a * 4096 + b * 64 + c"
    unfolding e using d by (rule base64_2)
  show "?n mod 64 = d" unfolding e using d by (rule base64_2)
  show "?n div 64 mod 64 = c" unfolding d1 using assms(1,2) by (rule base64_3)
  have "?n div 4096 = ?n div 64 div 64" by (simp add: div_mult2_eq [symmetric])
  then show "?n div 4096 mod 64 = b"
    unfolding d1 using base64_3(2) [OF assms(1,2), of a] by simp
  have "?n div 262144 = ?n div 64 div 4096" by (simp add: div_mult2_eq [symmetric])
  then show "?n div 262144 = a"
    unfolding d1 using base64_3(1) [OF assms(1,2), of a] by simp
qed

lemma enc3:
  assumes "0xE0 \<le> unat b0" "unat b0 \<le> 0xEF"
    and "(if unat b0 = 0xE0 then 0xA0 else 0x80) \<le> unat b1"
    and "unat b1 \<le> (if unat b0 = 0xED then 0x9F else 0xBF)" and "cont b2"
  shows "utf8_encode_cp ((unat b0 - 0xE0) * 4096 + (unat b1 - 0x80) * 64 + (unat b2 - 0x80))
           = Inr [b0, b1, b2]"
proof -
  define a b c where "a = unat b0 - 0xE0" and "b = unat b1 - 0x80" and "c = unat b2 - 0x80"
  from assms have r: "a \<le> 15" "b \<le> 63" "c \<le> 63" "unat b0 = 0xE0 + a" "unat b1 = 0x80 + b"
    "unat b2 = 0x80 + c" "a = 0 \<Longrightarrow> 32 \<le> b" "a = 13 \<Longrightarrow> b \<le> 31"
    by (auto simp: a_def b_def c_def cont_def split: if_splits)
  have b0: "word_of_nat (0xE0 + a) = b0" unfolding r(4) [symmetric] by simp
  have b1: "word_of_nat (0x80 + b) = b1" unfolding r(5) [symmetric] by simp
  have b2: "word_of_nat (0x80 + c) = b2" unfolding r(6) [symmetric] by simp
  let ?cp = "a * 4096 + b * 64 + c"
  have d: "?cp div 4096 = a" "?cp div 64 mod 64 = b" "?cp mod 64 = c"
    using r(2,3) by (simp_all add: base64_3)
  have lo: "2048 \<le> ?cp" using r(7) r(2,3) by (cases "a = 0") simp_all
  have hi: "?cp < 65536" using r(1-3) by simp
  have sur: "\<not> (0xD800 \<le> ?cp \<and> ?cp \<le> 0xDFFF)"
  proof (cases "a = 13")
    case True
    with r(8) r(3) show ?thesis by simp
  next
    case False
    then consider "a \<le> 12" | "14 \<le> a" by linarith
    then show ?thesis using r(2,3) by cases simp_all
  qed
  from lo hi sur show ?thesis
    unfolding a_def [symmetric] b_def [symmetric] c_def [symmetric] utf8_encode_cp_def
      d b0 b1 b2
    by simp
qed

lemma enc4:
  assumes "0xF0 \<le> unat b0" "unat b0 \<le> 0xF4"
    and "(if unat b0 = 0xF0 then 0x90 else 0x80) \<le> unat b1"
    and "unat b1 \<le> (if unat b0 = 0xF4 then 0x8F else 0xBF)" and "cont b2" and "cont b3"
  shows "utf8_encode_cp ((unat b0 - 0xF0) * 262144 + (unat b1 - 0x80) * 4096
                         + (unat b2 - 0x80) * 64 + (unat b3 - 0x80))
           = Inr [b0, b1, b2, b3]"
proof -
  define a b c d where "a = unat b0 - 0xF0" and "b = unat b1 - 0x80" and "c = unat b2 - 0x80"
    and "d = unat b3 - 0x80"
  from assms have r: "a \<le> 4" "b \<le> 63" "c \<le> 63" "d \<le> 63" "unat b0 = 0xF0 + a"
    "unat b1 = 0x80 + b" "unat b2 = 0x80 + c" "unat b3 = 0x80 + d"
    "a = 0 \<Longrightarrow> 16 \<le> b" "a = 4 \<Longrightarrow> b \<le> 15"
    by (auto simp: a_def b_def c_def d_def cont_def split: if_splits)
  have b0: "word_of_nat (0xF0 + a) = b0" unfolding r(5) [symmetric] by simp
  have b1: "word_of_nat (0x80 + b) = b1" unfolding r(6) [symmetric] by simp
  have b2: "word_of_nat (0x80 + c) = b2" unfolding r(7) [symmetric] by simp
  have b3: "word_of_nat (0x80 + d) = b3" unfolding r(8) [symmetric] by simp
  let ?cp = "a * 262144 + b * 4096 + c * 64 + d"
  have dv: "?cp div 262144 = a" "?cp div 4096 mod 64 = b" "?cp div 64 mod 64 = c" "?cp mod 64 = d"
    using r(2-4) by (simp_all add: base64_4)
  have lo: "65536 \<le> ?cp" using r(9) r(2-4) by (cases "a = 0") simp_all
  have hi: "?cp < 1114112"
  proof (cases "a = 4")
    case True
    with r(10) r(3,4) show ?thesis by simp
  next
    case False
    with r(1) have "a \<le> 3" by simp
    with r(2-4) show ?thesis by simp
  qed
  from lo hi show ?thesis
    unfolding a_def [symmetric] b_def [symmetric] c_def [symmetric] d_def [symmetric]
      utf8_encode_cp_def dv b0 b1 b2 b3
    by simp
qed

lemma utf8_encode_Cons:
  "utf8_encode_cp c = Inr b \<Longrightarrow> utf8_encode s = Inr bs \<Longrightarrow> utf8_encode (c # s) = Inr (b @ bs)"
  by (simp add: utf8_encode_def)

lemma utf8_roundtrip: "utf8_decode bs = Some s \<Longrightarrow> utf8_encode s = Inr bs"
proof (induction "length bs" arbitrary: bs s rule: less_induct)
  case less
  show ?case
  proof (cases bs)
    case Nil
    with less.prems show ?thesis by (simp add: utf8_encode_def)
  next
    case (Cons b0 r)
    note dec = less.prems [unfolded Cons]
    consider (one) "unat b0 < 0x80"
      | (two) "\<not> unat b0 < 0x80" "0xC2 \<le> unat b0 \<and> unat b0 \<le> 0xDF"
      | (three) "\<not> unat b0 < 0x80" "\<not> (0xC2 \<le> unat b0 \<and> unat b0 \<le> 0xDF)"
          "0xE0 \<le> unat b0 \<and> unat b0 \<le> 0xEF"
      | (four) "\<not> unat b0 < 0x80" "\<not> (0xC2 \<le> unat b0 \<and> unat b0 \<le> 0xDF)"
          "\<not> (0xE0 \<le> unat b0 \<and> unat b0 \<le> 0xEF)" "0xF0 \<le> unat b0 \<and> unat b0 \<le> 0xF4"
      | (bad) "\<not> unat b0 < 0x80" "\<not> (0xC2 \<le> unat b0 \<and> unat b0 \<le> 0xDF)"
          "\<not> (0xE0 \<le> unat b0 \<and> unat b0 \<le> 0xEF)" "\<not> (0xF0 \<le> unat b0 \<and> unat b0 \<le> 0xF4)"
      by blast
    then show ?thesis
    proof cases
      case one
      with dec obtain s' where s: "s = unat b0 # s'" and d: "utf8_decode r = Some s'"
        by auto
      have "utf8_encode s' = Inr r" using d Cons by (intro less.hyps) simp_all
      with enc1 [OF one] show ?thesis unfolding s Cons by (auto dest: utf8_encode_Cons)
    next
      case two
      with dec obtain b1 r' s' where r: "r = b1 # r'" and c: "cont b1"
        and s: "s = ((unat b0 - 0xC0) * 64 + (unat b1 - 0x80)) # s'"
        and d: "utf8_decode r' = Some s'"
        by (auto split: list.splits if_splits)
      have "utf8_encode s' = Inr r'" using d Cons r by (intro less.hyps) simp_all
      with enc2 [of b0 b1] two c show ?thesis
        unfolding s Cons r by (auto dest: utf8_encode_Cons)
    next
      case three
      with dec obtain b1 b2 r' s' where r: "r = b1 # b2 # r'"
        and c: "(if unat b0 = 0xE0 then 0xA0 else 0x80) \<le> unat b1"
               "unat b1 \<le> (if unat b0 = 0xED then 0x9F else 0xBF)" "cont b2"
        and s: "s = ((unat b0 - 0xE0) * 4096 + (unat b1 - 0x80) * 64 + (unat b2 - 0x80)) # s'"
        and d: "utf8_decode r' = Some s'"
        by (simp split: list.splits if_splits) blast+
      have "utf8_encode s' = Inr r'" using d Cons r by (intro less.hyps) simp_all
      with enc3 [of b0 b1 b2] three c show ?thesis
        unfolding s Cons r by (auto dest: utf8_encode_Cons)
    next
      case four
      with dec obtain b1 b2 b3 r' s' where r: "r = b1 # b2 # b3 # r'"
        and c: "(if unat b0 = 0xF0 then 0x90 else 0x80) \<le> unat b1"
               "unat b1 \<le> (if unat b0 = 0xF4 then 0x8F else 0xBF)" "cont b2" "cont b3"
        and s: "s = ((unat b0 - 0xF0) * 262144 + (unat b1 - 0x80) * 4096
                      + (unat b2 - 0x80) * 64 + (unat b3 - 0x80)) # s'"
        and d: "utf8_decode r' = Some s'"
        by (simp split: list.splits if_splits) blast+
      have "utf8_encode s' = Inr r'" using d Cons r by (intro less.hyps) simp_all
      with enc4 [of b0 b1 b2 b3] four c show ?thesis
        unfolding s Cons r by (auto dest: utf8_encode_Cons)
    next
      case bad
      with dec show ?thesis by simp
    qed
  qed
qed

subsection \<open>Combinators and records\<close>

lemma U_nonneg: "U n data i = Inr (len, i1) \<Longrightarrow> 0 \<le> len \<and> i1 = i + n"
  by (auto simp: U_def int_from_bytes_def)

lemma exact_string: "exact string string_unparse data"
proof (rule exactI)
  fix i s j
  assume "string data i = Inr (s, j)"
  then show "i \<le> j" by (auto simp: string_def U_def split: option.splits)
next
  fix i s j
  assume p: "string data i = Inr (s, j)" and j: "j \<le> length data"
  obtain len where l: "U 2 data i = Inr (len, i + 2)" by (simp add: U_def)
  from U_nonneg [OF l] have len: "0 \<le> len" by simp
  from p l have jj: "j = i + 2 + nat len"
    and d: "utf8_decode (py_slice data (i + 2) j) = Some s"
    by (auto simp: string_def split: option.splits)
  from utf8_roundtrip [OF d] have e: "utf8_encode s = Inr (py_slice data (i + 2) j)" .
  have "length (py_slice data (i + 2) j) = nat len" using jj j by (simp add: length_slice)
  then have "int (length (py_slice data (i + 2) j)) = len" using len by simp
  moreover have "U_unparse 2 len = Inr (py_slice data i (i + 2))"
    using exact_unparse [OF exact_U l] jj j by simp
  ultimately show "string_unparse s = Inr (py_slice data i j)"
    using e jj by (simp add: string_unparse_def py_slice_append)
qed

lemma exact_pair:
  assumes "exact f fu data" and "exact g gu data"
  shows "exact (pair f g) (pair_unparse fu gu) data"
proof (rule exactI)
  fix i v j
  assume p: "pair f g data i = Inr (v, j)"
  then obtain a i1 b where f: "f data i = Inr (a, i1)" and g: "g data i1 = Inr (b, j)"
    and v: "v = (a, b)"
    by (auto simp: pair_def bnd_eq_Inr)
  from exact_mono [OF assms(1) f] exact_mono [OF assms(2) g] show m: "i \<le> j" by simp
  assume j: "j \<le> length data"
  from exact_mono [OF assms(2) g] j have "i1 \<le> length data" by simp
  from exact_unparse [OF assms(1) f this] exact_unparse [OF assms(2) g j]
    exact_mono [OF assms(1) f] exact_mono [OF assms(2) g]
  show "pair_unparse fu gu v = Inr (py_slice data i j)"
    by (simp add: pair_unparse_def v py_slice_append)
qed

lemma seq_loop_exact:
  assumes "exact f fu data" and "seq_loop f data i n out = Inr (v, j)"
  shows "i \<le> j \<and> (\<exists>es. v = out @ es \<and> length es = n \<and>
           (j \<le> length data \<longrightarrow> join_unparse fu es = Inr (py_slice data i j)))"
  using assms(2)
proof (induction n arbitrary: i out)
  case 0
  then show ?case by simp
next
  case (Suc n)
  from Suc.prems obtain e i' where f: "f data i = Inr (e, i')"
    and r: "seq_loop f data i' n (out @ [e]) = Inr (v, j)"
    by (auto split: sum.splits)
  from Suc.IH [OF r] obtain es where ij: "i' \<le> j" and v: "v = (out @ [e]) @ es"
    and n: "length es = n"
    and u: "j \<le> length data \<longrightarrow> join_unparse fu es = Inr (py_slice data i' j)"
    by blast
  note m = exact_mono [OF assms(1) f]
  have "join_unparse fu (e # es) = Inr (py_slice data i j)" if j: "j \<le> length data"
  proof -
    from ij j have "i' \<le> length data" by simp
    from exact_unparse [OF assms(1) f this] u j m ij show ?thesis
      by (simp add: py_slice_append)
  qed
  with m ij v n show ?case by (intro conjI exI [of _ "e # es"]) auto
qed

lemma seq_mono:
  assumes "exact f fu data" and "exact l lu data" and "seq f l data i = Inr (v, j)"
  shows "i \<le> j"
proof -
  from assms(3) obtain len i1 where l: "l data i = Inr (len, i1)"
    and r: "seq_loop f data i1 (nat len) [] = Inr (v, j)"
    by (auto simp: seq_def bnd_eq_Inr split: if_splits)
  from exact_mono [OF assms(2) l] seq_loop_exact [OF assms(1) r] show ?thesis by simp
qed

lemma seq_exact_at:
  assumes "exact f fu data" and "exact l lu data" and "l data i = Inr (len, i1)"
    and "0 \<le> len" and "seq f l data i = Inr (v, j)" and "j \<le> length data"
  shows "seq_unparse fu lu v = Inr (py_slice data i j)"
proof -
  from assms(3,5) have r: "seq_loop f data i1 (nat len) [] = Inr (v, j)"
    by (auto simp: seq_def split: if_splits)
  from seq_loop_exact [OF assms(1) r] assms(6) have ij: "i1 \<le> j" and n: "length v = nat len"
    and u: "join_unparse fu v = Inr (py_slice data i1 j)"
    by auto
  from ij assms(6) have "i1 \<le> length data" by simp
  from exact_unparse [OF assms(2,3) this] have "lu len = Inr (py_slice data i i1)" .
  moreover have "int (length v) = len" using n assms(4) by simp
  ultimately show ?thesis
    using u ij exact_mono [OF assms(2,3)] by (simp add: seq_unparse_def py_slice_append)
qed

lemma exact_seq_U:
  assumes "exact f fu data"
  shows "exact (seq f (U n)) (seq_unparse fu (U_unparse n)) data"
proof (rule exactI)
  fix i v j
  assume p: "seq f (U n) data i = Inr (v, j)"
  from seq_mono [OF assms exact_U p] show "i \<le> j" .
  assume j: "j \<le> length data"
  obtain len where l: "U n data i = Inr (len, i + n)" by (simp add: U_def)
  from U_nonneg [OF l] have "0 \<le> len" by simp
  from seq_exact_at [OF assms exact_U l this p j]
  show "seq_unparse fu (U_unparse n) v = Inr (py_slice data i j)" .
qed

lemma py_slice_append2:
  "a \<le> b \<Longrightarrow> b \<le> c \<Longrightarrow> py_slice data a b @ py_slice data b c @ r = py_slice data a c @ r"
  using py_slice_append [of a b c data] by (metis append_assoc)

lemma exact_Point: "exact Point_parse Point_unparse data"
proof (rule exactI)
  fix i v j
  assume p: "Point_parse data i = Inr (v, j)"
  then obtain x i1 y where f1: "S 2 data i = Inr (x, i1)" and f2: "S 2 data i1 = Inr (y, j)"
    and v: "v = \<lparr>p_raw = py_slice data i j, p_x = x, p_y = y\<rparr>"
    by (auto simp: Point_parse_def bnd_eq_Inr split: if_splits)
  note m = exact_mono [OF exact_S f1] exact_mono [OF exact_S f2]
  from m show "i \<le> j" by simp
  assume j: "j \<le> length data"
  with m have b: "i1 \<le> length data" by simp
  from exact_unparse [OF exact_S f1 b] exact_unparse [OF exact_S f2 j] m
  show "Point_unparse v = Inr (py_slice data i j)"
    by (simp add: Point_unparse_def v py_slice_append)
qed

lemma exact_LinkedComponent: "exact LinkedComponent_parse LinkedComponent_unparse data"
proof (rule exactI)
  fix i v j
  assume p: "LinkedComponent_parse data i = Inr (v, j)"
  then obtain a1 i1 a2 i2 a3 i3 a4 where
    f1: "S 8 data i = Inr (a1, i1)" and f2: "S 8 data i1 = Inr (a2, i2)"
    and f3: "string data i2 = Inr (a3, i3)" and f4: "S 8 data i3 = Inr (a4, j)"
    and v: "v = \<lparr>lc_raw = py_slice data i j, lc_permanent_id = a1, lc_inner_id = a2,
                  lc_name = a3, lc_offset = a4\<rparr>"
    by (auto simp: LinkedComponent_parse_def bnd_eq_Inr split: if_splits)
  note m = exact_mono [OF exact_S f1] exact_mono [OF exact_S f2]
    exact_mono [OF exact_string f3] exact_mono [OF exact_S f4]
  from m show "i \<le> j" by simp
  assume j: "j \<le> length data"
  with m have b: "i1 \<le> length data" "i2 \<le> length data" "i3 \<le> length data" by simp_all
  from exact_unparse [OF exact_S f1 b(1)] exact_unparse [OF exact_S f2 b(2)]
    exact_unparse [OF exact_string f3 b(3)] exact_unparse [OF exact_S f4 j] m
  show "LinkedComponent_unparse v = Inr (py_slice data i j)"
    by (simp add: LinkedComponent_unparse_def v py_slice_append py_slice_append2)
qed

lemma exact_CustomCompData: "exact CustomCompData_parse CustomCompData_unparse data"
proof (rule exactI)
  have e: "exact (seq (pair (S 8) (S 8)) (U 2))
             (seq_unparse (pair_unparse (S_unparse 8) (S_unparse 8)) (U_unparse 2)) data"
    by (intro exact_seq_U exact_pair exact_S)
  fix i v j
  assume p: "CustomCompData_parse data i = Inr (v, j)"
  then obtain a1 i1 a2 where
    f1: "S 8 data i = Inr (a1, i1)"
    and f2: "seq (pair (S 8) (S 8)) (U 2) data i1 = Inr (a2, j)"
    and v: "v = \<lparr>ccd_raw = py_slice data i j, ccd_custom_id = a1, ccd_static_states = a2\<rparr>"
    by (auto simp: CustomCompData_parse_def bnd_eq_Inr split: if_splits)
  note m = exact_mono [OF exact_S f1] exact_mono [OF e f2]
  from m show "i \<le> j" by simp
  assume j: "j \<le> length data"
  with m have b: "i1 \<le> length data" by simp
  from exact_unparse [OF exact_S f1 b] exact_unparse [OF e f2 j] m
  show "CustomCompData_unparse v = Inr (py_slice data i j)"
    by (simp add: CustomCompData_unparse_def v py_slice_append)
qed

lemma exact_Component: "exact Component_parse Component_unparse data"
proof (rule exactI)
  have e6: "exact (seq (U 8) (U 2)) (seq_unparse (U_unparse 8) (U_unparse 2)) data"
    by (intro exact_seq_U exact_U)
  have e10: "exact (seq LinkedComponent_parse (U 2))
               (seq_unparse LinkedComponent_unparse (U_unparse 2)) data"
    by (intro exact_seq_U exact_LinkedComponent)
  have e11: "exact (seq (pair string string) (U 2))
               (seq_unparse (pair_unparse string_unparse string_unparse) (U_unparse 2)) data"
    by (intro exact_seq_U exact_pair exact_string)
  fix i v j
  assume p: "Component_parse data i = Inr (v, j)"
  then obtain a1 i1 a2 i2 a3 i3 a4 i4 a5 i5 a6 i6 a7 i7 a8 i8 a9 i9 a10 i10 a11 i11 a12 where
    f1: "U 2 data i = Inr (a1, i1)" and f2: "Point_parse data i1 = Inr (a2, i2)"
    and f3: "U 1 data i2 = Inr (a3, i3)" and f4: "U 8 data i3 = Inr (a4, i4)"
    and f5: "string data i4 = Inr (a5, i5)" and f6: "seq (U 8) (U 2) data i5 = Inr (a6, i6)"
    and f7: "S 8 data i6 = Inr (a7, i7)" and f8: "S 2 data i7 = Inr (a8, i8)"
    and f9: "S 8 data i8 = Inr (a9, i9)"
    and f10: "seq LinkedComponent_parse (U 2) data i9 = Inr (a10, i10)"
    and f11: "seq (pair string string) (U 2) data i10 = Inr (a11, i11)"
    and f12: "(if a1 = 78
               then bnd (CustomCompData_parse data i11) (\<lambda>(cd, i12). Inr (Some cd, i12))
               else Inr (None, i11)) = Inr (a12, j)"
    and v: "v = \<lparr>c_raw = py_slice data i j, c_component_kind = a1, c_position = a2,
                  c_rotation = a3, c_permanent_id = a4, c_custom_string = a5, c_settings = a6,
                  c_buffer_size = a7, c_ui_order = a8, c_word_size = a9,
                  c_linked_components = a10, c_selected_programs = a11, c_custom_data = a12\<rparr>"
    unfolding Component_parse_def
    by (simp only: bnd_eq_Inr split: if_splits) (auto simp: bnd_eq_Inr)
  have m12: "i11 \<le> j"
    using f12 by (auto simp: bnd_eq_Inr split: if_splits dest: exact_mono [OF exact_CustomCompData])
  note m = exact_mono [OF exact_U f1] exact_mono [OF exact_Point f2] exact_mono [OF exact_U f3]
    exact_mono [OF exact_U f4] exact_mono [OF exact_string f5] exact_mono [OF e6 f6]
    exact_mono [OF exact_S f7] exact_mono [OF exact_S f8] exact_mono [OF exact_S f9]
    exact_mono [OF e10 f10] exact_mono [OF e11 f11] m12
  from m show "i \<le> j" by simp
  assume j: "j \<le> length data"
  with m have b: "i1 \<le> length data" "i2 \<le> length data" "i3 \<le> length data"
    "i4 \<le> length data" "i5 \<le> length data" "i6 \<le> length data" "i7 \<le> length data"
    "i8 \<le> length data" "i9 \<le> length data" "i10 \<le> length data" "i11 \<le> length data"
    by simp_all
  have u12: "(if a1 = 78
              then (case a12 of None \<Rightarrow> Inl TypeError | Some cd \<Rightarrow> CustomCompData_unparse cd)
              else Inr []) = Inr (py_slice data i11 j)"
  proof (cases "a1 = 78")
    case True
    with f12 obtain cd where c: "CustomCompData_parse data i11 = Inr (cd, j)" and a: "a12 = Some cd"
      by (auto simp: bnd_eq_Inr)
    from exact_unparse [OF exact_CustomCompData c j] True a show ?thesis by simp
  next
    case False
    with f12 show ?thesis by simp
  qed
  note u = exact_unparse [OF exact_U f1 b(1)] exact_unparse [OF exact_Point f2 b(2)]
    exact_unparse [OF exact_U f3 b(3)] exact_unparse [OF exact_U f4 b(4)]
    exact_unparse [OF exact_string f5 b(5)] exact_unparse [OF e6 f6 b(6)]
    exact_unparse [OF exact_S f7 b(7)] exact_unparse [OF exact_S f8 b(8)]
    exact_unparse [OF exact_S f9 b(9)] exact_unparse [OF e10 f10 b(10)]
    exact_unparse [OF e11 f11 b(11)] u12
  have "Component_unparse v =
          Inr (py_slice data i i1 @ py_slice data i1 i2 @ py_slice data i2 i3 @ py_slice data i3 i4
               @ py_slice data i4 i5 @ py_slice data i5 i6 @ py_slice data i6 i7
               @ py_slice data i7 i8 @ py_slice data i8 i9 @ py_slice data i9 i10
               @ py_slice data i10 i11 @ py_slice data i11 j)"
    unfolding Component_unparse_def v by (simp only: Component.select_convs u bnd_Inr)
  also have "\<dots> = Inr (py_slice data i j)"
    using m by (simp add: py_slice_append py_slice_append2)
  finally show "Component_unparse v = Inr (py_slice data i j)" .
qed

lemma Schematic_head_exact:
  assumes p: "Schematic_head data i = Inr (h, j)"
  shows "i \<le> j"
    and "j \<le> length data \<Longrightarrow>
         Schematic_unparse (h\<lparr>s_raw := r, s_components := cs, s_wires := w\<rparr>) =
           bnd (seq_unparse Component_unparse (S_unparse 8) cs) (\<lambda>b14.
           bnd (remainder_unparse w) (\<lambda>b15. Inr (py_slice data i j @ b14 @ b15)))"
proof -
  have e7: "exact (seq (S 8) (U 2)) (seq_unparse (S_unparse 8) (U_unparse 2)) data"
    by (intro exact_seq_U exact_S)
  have e12: "exact (seq (U 8) (U 2)) (seq_unparse (U_unparse 8) (U_unparse 2)) data"
    by (intro exact_seq_U exact_U)
  from p obtain a1 i1 a2 i2 a3 i3 a4 i4 a5 i5 a6 i6 a7 i7 a8 i8 a9 i9 a10 i10 a11 i11 a12 i12 a13
    where
    f1: "S 8 data i = Inr (a1, i1)" and f2: "U 4 data i1 = Inr (a2, i2)"
    and f3: "S 8 data i2 = Inr (a3, i3)" and f4: "S 8 data i3 = Inr (a4, i4)"
    and f5: "U 1 data i4 = Inr (a5, i5)" and f6: "U 8 data i5 = Inr (a6, i6)"
    and f7: "seq (S 8) (U 2) data i6 = Inr (a7, i7)" and f8: "string data i7 = Inr (a8, i8)"
    and f9: "Point_parse data i8 = Inr (a9, i9)" and f10: "U 1 data i9 = Inr (a10, i10)"
    and f11: "U 2 data i10 = Inr (a11, i11)" and f12: "seq (U 8) (U 2) data i11 = Inr (a12, i12)"
    and f13: "string data i12 = Inr (a13, j)"
    and h: "h = \<lparr>s_raw = [], s_custom_id = a1, s_hub_id = a2, s_gate = a3, s_delay = a4,
                  s_menu_visible = a5, s_clock_speed = a6, s_dependencies = a7,
                  s_description = a8, s_camera_position = a9, s_synced = a10, s_dummy = a11,
                  s_player_data = a12, s_hub_description = a13, s_components = [],
                  s_wires = []\<rparr>"
    unfolding Schematic_head_def
    by (simp only: bnd_eq_Inr) (auto simp: bnd_eq_Inr)
  note m = exact_mono [OF exact_S f1] exact_mono [OF exact_U f2] exact_mono [OF exact_S f3]
    exact_mono [OF exact_S f4] exact_mono [OF exact_U f5] exact_mono [OF exact_U f6]
    exact_mono [OF e7 f7] exact_mono [OF exact_string f8] exact_mono [OF exact_Point f9]
    exact_mono [OF exact_U f10] exact_mono [OF exact_U f11] exact_mono [OF e12 f12]
    exact_mono [OF exact_string f13]
  from m show "i \<le> j" by simp
  assume j: "j \<le> length data"
  with m have b: "i1 \<le> length data" "i2 \<le> length data" "i3 \<le> length data"
    "i4 \<le> length data" "i5 \<le> length data" "i6 \<le> length data" "i7 \<le> length data"
    "i8 \<le> length data" "i9 \<le> length data" "i10 \<le> length data" "i11 \<le> length data"
    "i12 \<le> length data"
    by simp_all
  note u = exact_unparse [OF exact_S f1 b(1)] exact_unparse [OF exact_U f2 b(2)]
    exact_unparse [OF exact_S f3 b(3)] exact_unparse [OF exact_S f4 b(4)]
    exact_unparse [OF exact_U f5 b(5)] exact_unparse [OF exact_U f6 b(6)]
    exact_unparse [OF e7 f7 b(7)] exact_unparse [OF exact_string f8 b(8)]
    exact_unparse [OF exact_Point f9 b(9)] exact_unparse [OF exact_U f10 b(10)]
    exact_unparse [OF exact_U f11 b(11)] exact_unparse [OF e12 f12 b(12)]
    exact_unparse [OF exact_string f13 j]
  have sl: "py_slice data i i1 @ py_slice data i1 i2 @ py_slice data i2 i3 @ py_slice data i3 i4
            @ py_slice data i4 i5 @ py_slice data i5 i6 @ py_slice data i6 i7
            @ py_slice data i7 i8 @ py_slice data i8 i9 @ py_slice data i9 i10
            @ py_slice data i10 i11 @ py_slice data i11 i12 @ py_slice data i12 j @ rest
            = py_slice data i j @ rest" for rest
    using m by (simp add: py_slice_append2)
  show "Schematic_unparse (h\<lparr>s_raw := r, s_components := cs, s_wires := w\<rparr>) =
           bnd (seq_unparse Component_unparse (S_unparse 8) cs) (\<lambda>b14.
           bnd (remainder_unparse w) (\<lambda>b15. Inr (py_slice data i j @ b14 @ b15)))"
    unfolding Schematic_unparse_def h
    by (simp only: Schematic.select_convs Schematic.update_convs u bnd_Inr sl)
qed

end
